theory Spec2Isabelle
  imports Complex_Main "HOL-Library.AList"
begin

section \<open>Python values used by the embedding layer\<close>

text \<open>
  The exceptions that the modelled code can raise.  Every raise of the source is a
  branch of the model that returns \<open>Inl\<close> of one of them.
\<close>

datatype error = IndexError | ValueError | RuntimeError

text \<open>
  A Python \<open>str\<close> is a sequence of code points; the model covers the code points below
  256, one \<open>char\<close> each.  \<open>is_space\<close> is \<open>str.isspace\<close> on that range and
  \<open>py_split\<close> is \<open>str.split()\<close> without argument: runs of whitespace separate the
  words and no empty word is produced.
\<close>

definition is_space :: "char \<Rightarrow> bool" where
  "is_space c = ((of_char c :: nat) \<in> set [9, 10, 11, 12, 13, 28, 29, 30, 31, 32, 133, 160])"

fun split_acc :: "string \<Rightarrow> string \<Rightarrow> string list" where
  "split_acc cur [] = (if cur = [] then [] else [cur])"
| "split_acc cur (c # cs) =
     (if is_space c then (if cur = [] then split_acc [] cs else cur # split_acc [] cs)
      else split_acc (cur @ [c]) cs)"

definition py_split :: "string \<Rightarrow> string list" where
  "py_split s = split_acc [] s"

text \<open>\<open>str.split(sep)\<close> with a one-character separator: empty pieces are kept.\<close>

fun split_on_acc :: "char \<Rightarrow> string \<Rightarrow> string \<Rightarrow> string list" where
  "split_on_acc sep cur [] = [cur]"
| "split_on_acc sep cur (c # cs) =
     (if c = sep then cur # split_on_acc sep [] cs else split_on_acc sep (cur @ [c]) cs)"

definition split_on :: "char \<Rightarrow> string \<Rightarrow> string list" where
  "split_on sep s = split_on_acc sep [] s"

text \<open>\<open>str.lower\<close> on the code points below 256.\<close>

definition lower_char :: "char \<Rightarrow> char" where
  "lower_char c =
     (let n = (of_char c :: nat)
      in if (65 \<le> n \<and> n \<le> 90) \<or> (192 \<le> n \<and> n \<le> 222 \<and> n \<noteq> 215)
         then char_of (n + 32) else c)"

definition str_lower :: "string \<Rightarrow> string" where
  "str_lower s = map lower_char s"

text \<open>\<open>' '.join(words)\<close>.\<close>

fun join_space :: "string list \<Rightarrow> string" where
  "join_space [] = []"
| "join_space [w] = w"
| "join_space (w # ws) = w @ '' '' @ join_space ws"

text \<open>
  A \<open>dict\<close> from words to indices is an association list with distinct keys, written
  with \<open>AList.update\<close> and read with \<open>map_of\<close>; \<open>len(d)\<close> is its length.
\<close>

type_synonym word2idx = "(string \<times> nat) list"

definition dict_get :: "word2idx \<Rightarrow> string \<Rightarrow> nat \<Rightarrow> nat" where
  "dict_get d k dflt = (case map_of d k of None \<Rightarrow> dflt | Some v \<Rightarrow> v)"

text \<open>\<open>max\<close> of a list of numbers raises \<open>ValueError\<close> on the empty list.\<close>

definition py_max :: "nat list \<Rightarrow> error + nat" where
  "py_max xs = (case xs of [] \<Rightarrow> Inl ValueError | y # ys \<Rightarrow> Inr (fold max ys y))"

section \<open>PretrainedEmbedding\<close>

text \<open>
  The fields of \<open>PretrainedEmbedding\<close>.  The element type \<open>'a\<close> stands for the floating
  point numbers of the vectors; the model only uses a zero, an addition and a division
  on it and assumes no law about them.  \<open>weight\<close> is the weight matrix of the
  \<open>torch.nn.Embedding\<close> held in \<open>self.embedding\<close>.  \<open>column_cache\<close> is the dict of
  cached column embeddings; its keys are \<open>str(db)\<close> of a list of strings, which is
  injective on such lists, so the list itself is the key.  A cached entry is the tensor
  of one schema (columns, tokens, features) and its row of token counts.  The device flag \<open>gpu\<close> moves
  tensors and changes no value, so it is not a field of the model.
\<close>

type_synonym 'a column_cache = "(string list \<times> ('a list list list \<times> nat list)) list"

record 'a embedding =
  num_embeddings :: nat
  embedding_dim :: nat
  word2idx :: word2idx
  vectors :: "'a list list"
  column_cache :: "'a column_cache"
  use_column_cache :: bool
  weight :: "'a list list"

text \<open>
  \<open>Tensor.copy_\<close> of a matrix into an \<open>n \<times> d\<close> matrix broadcasts the source: each
  dimension of the source is the destination's or 1.
\<close>

definition rectangular :: "'a list list \<Rightarrow> bool" where
  "rectangular m = (case m of [] \<Rightarrow> True | r # rs \<Rightarrow> list_all (\<lambda>x. length x = length r) rs)"

definition copy_matrix :: "nat \<Rightarrow> nat \<Rightarrow> 'a list list \<Rightarrow> error + 'a list list" where
  "copy_matrix n d src =
     (case src of
        [] \<Rightarrow> (if n = 0 then Inr [] else Inl RuntimeError)
      | r # rs \<Rightarrow>
          (let m = length src; k = length r
           in if \<not> rectangular src then Inl ValueError
              else if (m = n \<or> m = 1) \<and> (k = d \<or> k = 1)
              then Inr (map (\<lambda>i. map (\<lambda>j. src ! (if m = 1 then 0 else i) ! (if k = 1 then 0 else j))
                                    [0..<d]) [0..<n])
              else Inl RuntimeError))"

text \<open>
  \<open>PretrainedEmbedding.__init__\<close> with \<open>use_embedding=True\<close>:
  \<open>Embedding(num_embeddings, embedding_dim, padding_idx=0)\<close> sets row 0 of its weight to
  zero, which raises \<open>IndexError\<close> when there is no row, then the vectors are copied
  into the weight.
\<close>

definition pretrained_init ::
  "nat \<Rightarrow> nat \<Rightarrow> word2idx \<Rightarrow> 'a list list \<Rightarrow> bool \<Rightarrow> error + 'a embedding" where
  "pretrained_init n d w2i vecs cache_on =
     (if n = 0 then Inl IndexError
      else case copy_matrix n d vecs of
             Inl e \<Rightarrow> Inl e
           | Inr w \<Rightarrow> Inr \<lparr>num_embeddings = n, embedding_dim = d, word2idx = w2i,
                            vectors = vecs, column_cache = [],
                            use_column_cache = cache_on, weight = w\<rparr>)"

section \<open>GloveEmbedding\<close>

text \<open>
  \<open>np.asarray(vector, dtype=np.float)\<close> converts the strings of a line to floats and
  raises \<open>ValueError\<close> when one of them is not a number.  The conversion of one string,
  \<open>to_float\<close>, is a parameter.
\<close>

fun asarray_float :: "(string \<Rightarrow> 'a option) \<Rightarrow> string list \<Rightarrow> error + 'a list" where
  "asarray_float to_float [] = Inr []"
| "asarray_float to_float (s # ss) =
     (case to_float s of
        None \<Rightarrow> Inl ValueError
      | Some x \<Rightarrow> (case asarray_float to_float ss of Inl e \<Rightarrow> Inl e | Inr xs \<Rightarrow> Inr (x # xs)))"

text \<open>
  The loop of \<open>GloveEmbedding.__init__\<close> over the lines of the file, \<open>idx\<close> counting
  the lines from 1.  \<open>line[0]\<close> raises \<open>IndexError\<close> on a line without a word.
\<close>

fun glove_lines ::
  "(string \<Rightarrow> 'a option) \<Rightarrow> nat \<Rightarrow> word2idx \<Rightarrow> 'a list list \<Rightarrow> string list
     \<Rightarrow> error + (word2idx \<times> 'a list list)" where
  "glove_lines to_float idx w2i vecs [] = Inr (w2i, vecs)"
| "glove_lines to_float idx w2i vecs (linee # rest) =
     (case py_split linee of
        [] \<Rightarrow> Inl IndexError
      | token # vector \<Rightarrow>
          if length vector = 300 \<and> map_of w2i token = None
          then (case asarray_float to_float vector of
                  Inl e \<Rightarrow> Inl e
                | Inr v \<Rightarrow> glove_lines to_float (Suc idx) (AList.update token idx w2i)
                             (vecs @ [v]) rest)
          else glove_lines to_float (Suc idx) w2i vecs rest)"

text \<open>
  \<open>GloveEmbedding.__init__\<close> on the lines of the file at \<open>path\<close>: after the loop the
  unknown token is mapped to 0 and a zero vector as long as the first vector is put in
  front (\<open>vectors[0]\<close> raises \<open>IndexError\<close> when no line was kept).
\<close>

definition glove_init ::
  "(string \<Rightarrow> 'a::zero option) \<Rightarrow> string list \<Rightarrow> bool \<Rightarrow> error + 'a embedding" where
  "glove_init to_float file_lines cache_on =
     (case glove_lines to_float 1 [] [] file_lines of
        Inl e \<Rightarrow> Inl e
      | Inr (w2i, vecs) \<Rightarrow>
          (let w2i' = AList.update ''<unknown>'' 0 w2i
           in (case vecs of
                 [] \<Rightarrow> Inl IndexError
               | v0 # _ \<Rightarrow>
                   (let vecs' = replicate (length v0) 0 # vecs
                    in pretrained_init (length w2i') (length (hd vecs')) w2i' vecs' cache_on))))"

section \<open>The batch embedding engine\<close>

text \<open>
  \<open>forward\<close> takes one sentence or a list of sentences.  Its result is the tensor of
  word embeddings, of three dimensions (sentence, token, feature), or, with
  \<open>mean_sequence\<close>, the result of the division of the sums, of two dimensions.
\<close>

datatype sentences = Str string | StrList "string list"

datatype 'a fwd_out = Seq "'a list list list" | Mean "'a list list"

definition as_list :: "sentences \<Rightarrow> string list" where
  "as_list ss = (case ss of Str s \<Rightarrow> [s] | StrList l \<Rightarrow> l)"

text \<open>
  Lines 68 to 74: the index tensor is zero where a sentence has no token, and an
  unknown word has index 0.
\<close>

definition indicies_of :: "word2idx \<Rightarrow> nat \<Rightarrow> string list list \<Rightarrow> nat list list" where
  "indicies_of w2i max_len sentences_words =
     map (\<lambda>sentence. map (\<lambda>word. dict_get w2i word 0) sentence
                        @ replicate (max_len - length sentence) 0) sentences_words"

text \<open>
  \<open>self.embedding(indicies)\<close>: row \<open>i\<close> of the weight for index \<open>i\<close>, and
  \<open>IndexError\<close> for an index that is not a row.
\<close>

definition embedding_lookup :: "'a list list \<Rightarrow> nat list list \<Rightarrow> error + 'a list list list" where
  "embedding_lookup w idx =
     (if list_all (list_all (\<lambda>i. i < length w)) idx
      then Inr (map (map (\<lambda>i. w ! i)) idx) else Inl IndexError)"

text \<open>
  The sum of a sequence of numbers, from left to right, and of a sequence of vectors
  of dimension \<open>d\<close>, feature by feature (\<open>torch.sum\<close> along one dimension).
\<close>

definition fsum :: "'a::{zero,plus} list \<Rightarrow> 'a" where
  "fsum xs = (case xs of [] \<Rightarrow> 0 | y # ys \<Rightarrow> foldl (+) y ys)"

definition sum_rows :: "nat \<Rightarrow> 'a::{zero,plus} list list \<Rightarrow> 'a list" where
  "sum_rows d rows = map (\<lambda>k. fsum (map (\<lambda>r. r ! k) rows)) [0..<d]"

text \<open>
  Line 80 divides the sums, of shape (batch, features), by the lengths, of shape
  (batch): broadcasting aligns the lengths with the features, so the shapes fit
  when the batch has one sentence, when there are as many features as sentences, or
  when there is one feature, which is then repeated for every length.  \<open>of_len\<close> is the conversion of a length to a float.
\<close>

definition div_lengths ::
  "(nat \<Rightarrow> 'a) \<Rightarrow> nat \<Rightarrow> 'a::inverse list list \<Rightarrow> nat list \<Rightarrow> error + 'a list list" where
  "div_lengths of_len d totals lenghts =
     (let b = length lenghts
      in if d = b \<or> b = 1 \<or> d = 1
         then Inr (map (\<lambda>row. map (\<lambda>k. row ! (if d = 1 then 0 else k)
                                          / of_len (lenghts ! (if b = 1 then 0 else k)))
                                  [0..<(if d = 1 then b else d)]) totals)
         else Inl RuntimeError)"

text \<open>
  \<open>PretrainedEmbedding.forward\<close>.  \<open>word_tokenize\<close> is a parameter, the tokenizer
  \<open>tokenize\<close>.
\<close>

definition forward ::
  "(string \<Rightarrow> string list) \<Rightarrow> (nat \<Rightarrow> 'a) \<Rightarrow> 'a::{zero,plus,inverse} embedding \<Rightarrow> sentences \<Rightarrow> bool
     \<Rightarrow> error + ('a fwd_out \<times> nat list)" where
  "forward tokenize of_len emb ss mean_sequence =
     (let sentences = map str_lower (as_list ss);
          sentences_words = map tokenize sentences;
          lenghts = map length sentences_words
      in case py_max lenghts of
           Inl e \<Rightarrow> Inl e
         | Inr max_len \<Rightarrow>
             (case embedding_lookup (weight emb)
                     (indicies_of (word2idx emb) max_len sentences_words) of
                Inl e \<Rightarrow> Inl e
              | Inr word_embeddings \<Rightarrow>
                  if mean_sequence
                  then (case div_lengths of_len (embedding_dim emb)
                               (map (sum_rows (embedding_dim emb)) word_embeddings) lenghts of
                          Inl e \<Rightarrow> Inl e
                        | Inr m \<Rightarrow> Inr (Mean m, lenghts))
                  else Inr (Seq word_embeddings, lenghts)))"

text \<open>
  \<open>torch.mean(torch.stack(ts), dim=0)\<close> on a list of matrices: \<open>torch.stack\<close> raises
  on the empty list and on matrices of different shapes.
\<close>

definition shape2 :: "'a list list \<Rightarrow> nat \<times> nat" where
  "shape2 m = (length m, (case m of [] \<Rightarrow> 0 | r # _ \<Rightarrow> length r))"

definition mean_stack :: "(nat \<Rightarrow> 'a) \<Rightarrow> 'a::{zero,plus,inverse} list list list \<Rightarrow> 'a list list" where
  "mean_stack of_len ts =
     map (\<lambda>i. map (\<lambda>k. fsum (map (\<lambda>t. t ! i ! k) ts) / of_len (length ts))
               [0..<snd (shape2 (hd ts))]) [0..<fst (shape2 (hd ts))]"

definition torch_mean_stack ::
  "(nat \<Rightarrow> 'a) \<Rightarrow> 'a::{zero,plus,inverse} list list list \<Rightarrow> error + 'a list list" where
  "torch_mean_stack of_len ts =
     (case ts of
        [] \<Rightarrow> Inl RuntimeError
      | t # rest \<Rightarrow>
          if list_all rectangular ts \<and> list_all (\<lambda>u. shape2 u = shape2 t) rest
          then Inr (mean_stack of_len ts) else Inl RuntimeError)"

text \<open>
  \<open>embed_token\<close>: the inner loop collects the embeddings of the non-empty pieces of
  one word, the outer loop the means of the words.
\<close>

fun embed_elements ::
  "(string \<Rightarrow> string list) \<Rightarrow> (nat \<Rightarrow> 'a) \<Rightarrow> 'a::{zero,plus,inverse} embedding \<Rightarrow> string list
     \<Rightarrow> error + 'a list list list" where
  "embed_elements tokenize of_len emb [] = Inr []"
| "embed_elements tokenize of_len emb (element # rest) =
     (if element \<noteq> []
      then (case forward tokenize of_len emb (Str element) True of
              Inl e \<Rightarrow> Inl e
            | Inr (Seq _, _) \<Rightarrow> Inl RuntimeError
            | Inr (Mean m, _) \<Rightarrow>
                (case embed_elements tokenize of_len emb rest of
                   Inl e \<Rightarrow> Inl e
                 | Inr emb_list \<Rightarrow> Inr (m # emb_list)))
      else embed_elements tokenize of_len emb rest)"

fun embed_words ::
  "(string \<Rightarrow> string list) \<Rightarrow> (nat \<Rightarrow> 'a) \<Rightarrow> 'a::{zero,plus,inverse} embedding \<Rightarrow> string list
     \<Rightarrow> error + 'a list list list" where
  "embed_words tokenize of_len emb [] = Inr []"
| "embed_words tokenize of_len emb (word # rest) =
     (case embed_elements tokenize of_len emb (split_on (CHR ''_'') word) of
        Inl e \<Rightarrow> Inl e
      | Inr emb_list \<Rightarrow>
          (case torch_mean_stack of_len emb_list of
             Inl e \<Rightarrow> Inl e
           | Inr m \<Rightarrow>
               (case embed_words tokenize of_len emb rest of
                  Inl e \<Rightarrow> Inl e
                | Inr embs \<Rightarrow> Inr (m # embs))))"

definition embed_token ::
  "(string \<Rightarrow> string list) \<Rightarrow> (nat \<Rightarrow> 'a) \<Rightarrow> 'a::{zero,plus,inverse} embedding \<Rightarrow> string
     \<Rightarrow> error + 'a list list" where
  "embed_token tokenize of_len emb token =
     (case embed_words tokenize of_len emb (py_split token) of
        Inl e \<Rightarrow> Inl e
      | Inr embs \<Rightarrow> torch_mean_stack of_len embs)"

section \<open>Column embeddings and their cache\<close>

text \<open>
  Line 172, \<open>embeddings[i,j,:n,:] = emb\<close>: \<open>old\<close> is the matrix of column \<open>j\<close>
  (tokens, features), \<open>rows\<close> the embedding of the column's tokens.  The slice has
  \<open>min n (length old)\<close> rows; the rows assigned must be as many, or one row that is
  repeated, and have \<open>d\<close> features each.
\<close>

definition assign_rows :: "nat \<Rightarrow> 'a list list \<Rightarrow> nat \<Rightarrow> 'a list list \<Rightarrow> error + 'a list list" where
  "assign_rows d old n rows =
     (let m = min n (length old)
      in if \<not> list_all (\<lambda>r. length r = d) rows then Inl RuntimeError
         else if length rows = m then Inr (rows @ drop m old)
         else if length rows = 1 then Inr (replicate m (hd rows) @ drop m old)
         else Inl RuntimeError)"

text \<open>
  The loop over the columns of one schema (lines 166 to 173), on row \<open>i\<close> of the two
  outputs.  \<open>calls\<close> records the sentences handed to \<open>forward\<close>, in order.
\<close>

fun embed_db ::
  "(string \<Rightarrow> string list) \<Rightarrow> (nat \<Rightarrow> 'a) \<Rightarrow> 'a::{zero,plus,inverse} embedding \<Rightarrow> nat \<Rightarrow> string list
     \<Rightarrow> 'a list list list \<Rightarrow> nat list \<Rightarrow> string list
     \<Rightarrow> (error + ('a list list list \<times> nat list)) \<times> string list" where
  "embed_db tokenize of_len emb j [] e_i c_i calls = (Inr (e_i, c_i), calls)"
| "embed_db tokenize of_len emb j (column # rest) e_i c_i calls =
     (case forward tokenize of_len emb (Str column) False of
        Inr (Seq [rows], [col_name_len]) \<Rightarrow>
          (case assign_rows (embedding_dim emb) (e_i ! j) col_name_len rows of
             Inl e \<Rightarrow> (Inl e, calls @ [column])
           | Inr r \<Rightarrow> embed_db tokenize of_len emb (Suc j) rest
                        (e_i[j := r]) (c_i[j := col_name_len]) (calls @ [column]))
      | Inr _ \<Rightarrow> (Inl RuntimeError, calls @ [column])
      | Inl e \<Rightarrow> (Inl e, calls @ [column]))"

text \<open>
  The cache hit (lines 153 to 163).  \<open>size1\<close> is \<open>size(1)\<close> of a cached tensor, which
  always has a first row.  \<open>assign_block\<close> is line 162 and \<open>assign_lengths\<close> is the
  assignment of line 163, whose right-hand side must have as many entries as the slice
  or one entry.
\<close>

definition size1 :: "'a list list list \<Rightarrow> nat" where
  "size1 t = (case t of [] \<Rightarrow> 0 | r # _ \<Rightarrow> length r)"

definition assign_block ::
  "'a list list list \<Rightarrow> nat \<Rightarrow> nat \<Rightarrow> 'a list list list \<Rightarrow> 'a list list list" where
  "assign_block old min_size1 min_size2 src =
     map (\<lambda>j. map (\<lambda>k. if j < min_size1 \<and> k < min_size2 then src ! j ! k else old ! j ! k)
               [0..<length (old ! j)]) [0..<length old]"

definition assign_lengths :: "nat list \<Rightarrow> nat \<Rightarrow> nat list \<Rightarrow> error + nat list" where
  "assign_lengths old min_size1 v =
     (let src = take min_size1 v; m = min min_size1 (length old)
      in if length src = m then Inr (src @ drop m old)
         else if length src = 1 then Inr (replicate m (hd src) @ drop m old)
         else Inl ValueError)"

text \<open>
  The loop over the schemas of the batch (lines 151 to 178).  The cache is part of the
  result also when an exception ends the loop, as the entries written before stay.
\<close>

fun columns_loop ::
  "(string \<Rightarrow> string list) \<Rightarrow> (nat \<Rightarrow> 'a) \<Rightarrow> 'a::{zero,plus,inverse} embedding \<Rightarrow> nat \<Rightarrow> nat \<Rightarrow> nat
     \<Rightarrow> string list list \<Rightarrow> 'a list list list list \<Rightarrow> nat list list \<Rightarrow> 'a column_cache
     \<Rightarrow> string list
     \<Rightarrow> (error + ('a list list list list \<times> nat list list)) \<times> 'a column_cache \<times> string list" where
  "columns_loop tokenize of_len emb max_len max_col_name_len i [] embeddings col_name_lengths
      cache calls = (Inr (embeddings, col_name_lengths), cache, calls)"
| "columns_loop tokenize of_len emb max_len max_col_name_len i (db # rest) embeddings
      col_name_lengths cache calls =
     (case map_of cache db of
        Some (cached_emb, cached_lengths) \<Rightarrow>
          (let min_size1 = min (length cached_emb) max_len;
               min_size2 = min (size1 cached_emb) max_col_name_len
           in case assign_lengths (col_name_lengths ! i) min_size1
                     (map (\<lambda>n. min n max_col_name_len) cached_lengths) of
                Inl e \<Rightarrow> (Inl e, cache, calls)
              | Inr c_i \<Rightarrow>
                  columns_loop tokenize of_len emb max_len max_col_name_len (Suc i) rest
                    (embeddings[i := assign_block (embeddings ! i) min_size1 min_size2 cached_emb])
                    (col_name_lengths[i := c_i]) cache calls)
      | None \<Rightarrow>
          (case embed_db tokenize of_len emb 0 db (embeddings ! i) (col_name_lengths ! i) calls of
             (Inl e, calls') \<Rightarrow> (Inl e, cache, calls')
           | (Inr (e_i, c_i), calls') \<Rightarrow>
               columns_loop tokenize of_len emb max_len max_col_name_len (Suc i) rest
                 (embeddings[i := e_i]) (col_name_lengths[i := c_i])
                 (if use_column_cache emb then AList.update db (e_i, c_i) cache else cache)
                 calls'))"

fun max_each :: "nat list list \<Rightarrow> error + nat list" where
  "max_each [] = Inr []"
| "max_each (xs # rest) =
     (case py_max xs of
        Inl e \<Rightarrow> Inl e
      | Inr m \<Rightarrow> (case max_each rest of Inl e \<Rightarrow> Inl e | Inr ms \<Rightarrow> Inr (m # ms)))"

text \<open>
  \<open>get_columns_emb\<close>: the result, the object with its cache after the call, and the
  sentences handed to \<open>forward\<close> during the call.  The token counts of line 137 are
  overwritten at line 143 before any use and are left out.
\<close>

definition get_columns_emb ::
  "(string \<Rightarrow> string list) \<Rightarrow> (nat \<Rightarrow> 'a) \<Rightarrow> 'a::{zero,plus,inverse} embedding \<Rightarrow> string list list list
     \<Rightarrow> (error + ('a list list list list \<times> nat list \<times> nat list list)) \<times> 'a embedding \<times> string list"
  where
  "get_columns_emb tokenize of_len emb columns =
     (let batch_size = length columns;
          lengths = map length columns
      in case py_max lengths of
           Inl e \<Rightarrow> (Inl e, emb, [])
         | Inr max_len \<Rightarrow>
             (let columns_joined = map (map join_space) columns;
                  token_counts = map (map (\<lambda>column. length (tokenize column))) columns_joined
              in case max_each token_counts of
                   Inl e \<Rightarrow> (Inl e, emb, [])
                 | Inr maxes \<Rightarrow>
                     (case py_max maxes of
                        Inl e \<Rightarrow> (Inl e, emb, [])
                      | Inr max_col_name_len \<Rightarrow>
                          (case columns_loop tokenize of_len emb max_len max_col_name_len 0
                                  columns_joined
                                  (replicate batch_size (replicate max_len
                                     (replicate max_col_name_len (replicate (embedding_dim emb) 0))))
                                  (replicate batch_size (replicate max_len 0))
                                  (column_cache emb) [] of
                             (Inl e, cache, calls) \<Rightarrow>
                               (Inl e, emb\<lparr>column_cache := cache\<rparr>, calls)
                           | (Inr (embeddings, col_name_lengths), cache, calls) \<Rightarrow>
                               (Inr (embeddings, lengths, col_name_lengths),
                                emb\<lparr>column_cache := cache\<rparr>, calls)))))"

section \<open>LaserEmbedding\<close>

text \<open>
  A numpy array or torch tensor with its shape and its elements in row-major order,
  and the nested lists of arrays that \<open>torch.tensor\<close> is given.  \<open>torch.tensor\<close>
  raises \<open>ValueError\<close> when the elements of a list differ in shape.
\<close>

record 'a ndarray =
  nd_shape :: "nat list"
  nd_data :: "'a list"

datatype 'a pyval = Nd "'a ndarray" | PyList "'a pyval list"

fun collect :: "(error + 'b) list \<Rightarrow> error + 'b list" where
  "collect [] = Inr []"
| "collect (r # rs) =
     (case r of
        Inl e \<Rightarrow> Inl e
      | Inr x \<Rightarrow> (case collect rs of Inl e \<Rightarrow> Inl e | Inr xs \<Rightarrow> Inr (x # xs)))"

fun torch_tensor :: "'a pyval \<Rightarrow> error + 'a ndarray" where
  "torch_tensor (Nd a) = Inr a"
| "torch_tensor (PyList vs) =
     (case collect (map torch_tensor vs) of
        Inl e \<Rightarrow> Inl e
      | Inr [] \<Rightarrow> Inr \<lparr>nd_shape = [0], nd_data = []\<rparr>
      | Inr (t # ts) \<Rightarrow>
          if list_all (\<lambda>u. nd_shape u = nd_shape t) ts
          then Inr \<lparr>nd_shape = Suc (length ts) # nd_shape t,
                    nd_data = concat (map nd_data (t # ts))\<rparr>
          else Inl ValueError)"

definition squeeze :: "'a ndarray \<Rightarrow> 'a ndarray" where
  "squeeze t = t\<lparr>nd_shape := filter (\<lambda>n. n \<noteq> 1) (nd_shape t)\<rparr>"

definition unsqueeze0 :: "'a ndarray \<Rightarrow> 'a ndarray" where
  "unsqueeze0 t = t\<lparr>nd_shape := 1 # nd_shape t\<rparr>"

definition reshape_flat :: "'a ndarray \<Rightarrow> 'a ndarray" where
  "reshape_flat a = \<lparr>nd_shape = [length (nd_data a)], nd_data = nd_data a\<rparr>"

text \<open>
  The fields of \<open>LaserEmbedding\<close> that \<open>forward\<close> uses; \<open>embedding_dim\<close> is 1024.
  The external embedder is a parameter, \<open>embedder\<close>.
\<close>

record 'a laser =
  laser_num_embeddings :: nat
  laser_word2idx :: word2idx
  laser_vectors :: "'a ndarray list"

definition laser_dim :: nat where
  "laser_dim = 1024"

definition laser_init :: "'a laser" where
  "laser_init = \<lparr>laser_num_embeddings = 1, laser_word2idx = [], laser_vectors = []\<rparr>"

text \<open>
  Lines 336 to 338 for one word: the state is the dict, the vectors and the record of
  the words handed to the embedder.
\<close>

definition grow_word ::
  "(string \<Rightarrow> 'a ndarray) \<Rightarrow> string \<Rightarrow> word2idx \<times> 'a ndarray list \<times> string list
     \<Rightarrow> word2idx \<times> 'a ndarray list \<times> string list" where
  "grow_word embedder word st =
     (case st of (w2i, vecs, calls) \<Rightarrow>
        if map_of w2i word = None
        then (AList.update word (length w2i) w2i, vecs @ [embedder word], calls @ [word])
        else (w2i, vecs, calls))"

definition grow_vocab ::
  "(string \<Rightarrow> 'a ndarray) \<Rightarrow> string list list \<Rightarrow> word2idx \<times> 'a ndarray list \<times> string list
     \<Rightarrow> word2idx \<times> 'a ndarray list \<times> string list" where
  "grow_vocab embedder sentences_words st =
     fold (\<lambda>sentence. fold (grow_word embedder) sentence) sentences_words st"

text \<open>Lines 344 to 352 for one sentence.\<close>

definition lookup_vector :: "word2idx \<Rightarrow> 'a ndarray list \<Rightarrow> string \<Rightarrow> error + 'a pyval" where
  "lookup_vector w2i vecs word =
     (let i = dict_get w2i word 0
      in if i < length vecs then Inr (Nd (reshape_flat (vecs ! i))) else Inl IndexError)"

definition sentence_list ::
  "word2idx \<Rightarrow> 'a::zero ndarray list \<Rightarrow> nat \<Rightarrow> string list \<Rightarrow> error + 'a pyval" where
  "sentence_list w2i vecs max_len sentence =
     (case collect (map (lookup_vector w2i vecs) sentence) of
        Inl e \<Rightarrow> Inl e
      | Inr vs \<Rightarrow>
          Inr (PyList (vs @ replicate (max_len - length sentence)
                 (Nd \<lparr>nd_shape = [1, laser_dim], nd_data = replicate laser_dim 0\<rparr>))))"

text \<open>Lines 354 to 358: the tensor of the collected embeddings, squeezed.\<close>

definition laser_tensor :: "'a pyval list \<Rightarrow> error + 'a ndarray" where
  "laser_tensor word_embeddings =
     (case torch_tensor (PyList word_embeddings) of
        Inl e \<Rightarrow> Inl e
      | Inr t \<Rightarrow>
          (let t' = squeeze t
           in Inr (if length (nd_shape t') < 3 then unsqueeze0 t' else t')))"

text \<open>
  \<open>LaserEmbedding.forward\<close>: the result, the object after the call and the texts
  handed to the embedder during the call.  An exception leaves the object as the loops
  before it have changed it.
\<close>

definition laser_forward ::
  "(string \<Rightarrow> string list) \<Rightarrow> (string \<Rightarrow> 'a ndarray) \<Rightarrow> 'a::zero laser \<Rightarrow> sentences \<Rightarrow> bool
     \<Rightarrow> (error + ('a ndarray \<times> nat list)) \<times> 'a laser \<times> string list" where
  "laser_forward tokenize embedder st ss mean_sequence =
     (let sentences = map str_lower (as_list ss);
          sentences_words = map tokenize sentences;
          lengths = map length sentences_words
      in case py_max lengths of
           Inl e \<Rightarrow> (Inl e, st, [])
         | Inr max_len \<Rightarrow>
             if mean_sequence
             then (case laser_tensor (map (\<lambda>sentence. Nd (embedder sentence)) sentences) of
                     Inl e \<Rightarrow> (Inl e, st, sentences)
                   | Inr t \<Rightarrow> (Inr (t, lengths), st, sentences))
             else (case grow_vocab embedder sentences_words
                          (laser_word2idx st, laser_vectors st, []) of
                     (w2i, vecs, calls) \<Rightarrow>
                       (let st' = \<lparr>laser_num_embeddings = length w2i, laser_word2idx = w2i,
                                    laser_vectors = vecs\<rparr>
                        in case collect (map (sentence_list w2i vecs max_len) sentences_words) of
                             Inl e \<Rightarrow> (Inl e, st', calls)
                           | Inr word_embeddings \<Rightarrow>
                               (case laser_tensor word_embeddings of
                                  Inl e \<Rightarrow> (Inl e, st', calls)
                                | Inr t \<Rightarrow> (Inr (t, lengths), st', calls)))))"

section \<open>Invariants and examples\<close>

text \<open>
  The vocabulary invariant that \<open>forward\<close> relies on: index 0 is a row of the weight,
  and so is every index of the dict.
\<close>

definition indices_in_range :: "'a embedding \<Rightarrow> bool" where
  "indices_in_range emb =
     (0 < length (weight emb) \<and> list_all (\<lambda>(w, i). i < length (weight emb)) (word2idx emb))"

text \<open>An embedding of three words in two dimensions, over the rationals.\<close>

definition small_embedding :: "rat embedding" where
  "small_embedding =
     \<lparr>num_embeddings = 4, embedding_dim = 2,
      word2idx = [(''a'', 1), (''b'', 2), (''c'', 3)],
      vectors = [[0, 0], [1, 2], [3, 4], [5, 8]], column_cache = [],
      use_column_cache = True, weight = [[0, 0], [1, 2], [3, 4], [5, 8]]\<rparr>"

text \<open>The true token counts of a batch: the tokens of each lowercased sentence.\<close>

definition token_counts :: "(string \<Rightarrow> string list) \<Rightarrow> sentences \<Rightarrow> nat list" where
  "token_counts tokenize ss = map (\<lambda>s. length (tokenize (str_lower s))) (as_list ss)"

text \<open>
  The vector of a sub-part of a word: its embedding with \<open>mean_sequence=True\<close>, as
  \<open>embed_token\<close> obtains it.
\<close>

definition sub_part_vector ::
  "(string \<Rightarrow> string list) \<Rightarrow> (nat \<Rightarrow> 'a) \<Rightarrow> 'a::{zero,plus,inverse} embedding \<Rightarrow> string
     \<Rightarrow> 'a list list" where
  "sub_part_vector tokenize of_len emb element =
     (case forward tokenize of_len emb (Str element) True of
        Inr (Mean m, _) \<Rightarrow> m
      | _ \<Rightarrow> [])"

text \<open>
  A conversion of decimal numerals \<open>digits\<close> or \<open>digits.digits\<close> to rationals, used as
  \<open>to_float\<close> in the examples, and a line of a vocabulary file: a token followed by
  300 times the same value.
\<close>

definition digit_value :: "char \<Rightarrow> nat option" where
  "digit_value c =
     (let n = (of_char c :: nat) in if 48 \<le> n \<and> n \<le> 57 then Some (n - 48) else None)"

fun digits_value :: "nat \<Rightarrow> string \<Rightarrow> nat option" where
  "digits_value acc [] = Some acc"
| "digits_value acc (c # cs) =
     (case digit_value c of None \<Rightarrow> None | Some d \<Rightarrow> digits_value (10 * acc + d) cs)"

definition decimal :: "string \<Rightarrow> rat option" where
  "decimal s =
     (case split_on (CHR ''.'') s of
        [a] \<Rightarrow> (if a = [] then None else map_option of_nat (digits_value 0 a))
      | [a, b] \<Rightarrow>
          (if a = [] \<or> b = [] then None
           else (case (digits_value 0 a, digits_value 0 b) of
                   (Some x, Some y) \<Rightarrow> Some (of_nat x + of_nat y / 10 ^ length b)
                 | _ \<Rightarrow> None))
      | _ \<Rightarrow> None)"

definition glove_line :: "string \<Rightarrow> string \<Rightarrow> string" where
  "glove_line token v = token @ concat (replicate 300 ('' '' @ v))"

text \<open>
  The lines that the specification says are retained, with their line numbers from
  \<open>idx\<close> on: those whose vector has 300 entries and whose token is not the token of a
  line retained before (\<open>seen\<close>).
\<close>

fun retained :: "nat \<Rightarrow> string list \<Rightarrow> string list \<Rightarrow> (nat \<times> string \<times> string list) list" where
  "retained idx seen [] = []"
| "retained idx seen (l # ls) =
     (case py_split l of
        [] \<Rightarrow> retained (Suc idx) seen ls
      | token # vector \<Rightarrow>
          if length vector = 300 \<and> token \<notin> set seen
          then (idx, token, vector) # retained (Suc idx) (token # seen) ls
          else retained (Suc idx) seen ls)"

text \<open>The dict after the entries of retained lines have been written into it.\<close>

definition insert_all :: "(nat \<times> string \<times> string list) list \<Rightarrow> word2idx \<Rightarrow> word2idx" where
  "insert_all rs w2i = fold (\<lambda>(i, t, v). AList.update t i) rs w2i"

definition line_token :: "nat \<times> string \<times> string list \<Rightarrow> string" where
  "line_token r = fst (snd r)"

definition line_vector :: "(string \<Rightarrow> 'a option) \<Rightarrow> nat \<times> string \<times> string list \<Rightarrow> 'a list" where
  "line_vector to_float r = map (\<lambda>s. the (to_float s)) (snd (snd r))"

text \<open>The retained lines of a whole file, numbered from 1.\<close>

definition retained_lines :: "string list \<Rightarrow> (nat \<times> string \<times> string list) list" where
  "retained_lines file_lines = retained 1 [] file_lines"

text \<open>
  The tokens of a batch in the order of the loops of \<open>LaserEmbedding.forward\<close>, and the
  invariant of the dynamic vocabulary: there are as many vectors as words and every
  index of the dict is the position of a vector.  \<open>stored_dim\<close> says that the stored
  vectors have \<open>embedding_dim\<close> numbers.
\<close>

definition batch_tokens :: "(string \<Rightarrow> string list) \<Rightarrow> sentences \<Rightarrow> string list" where
  "batch_tokens tokenize ss = concat (map tokenize (map str_lower (as_list ss)))"

definition laser_inv :: "'a laser \<Rightarrow> bool" where
  "laser_inv st =
     (length (laser_vectors st) = length (laser_word2idx st)
      \<and> list_all (\<lambda>(w, k). k < length (laser_vectors st)) (laser_word2idx st))"

definition stored_dim :: "'a laser \<Rightarrow> bool" where
  "stored_dim st = list_all (\<lambda>v. length (nd_data v) = laser_dim) (laser_vectors st)"

text \<open>An embedder for the examples: 1024 times the length of the text.\<close>

definition length_embedder :: "string \<Rightarrow> rat ndarray" where
  "length_embedder text =
     \<lparr>nd_shape = [1, laser_dim], nd_data = replicate laser_dim (of_nat (length text))\<rparr>"

text \<open>
  The column cache.  A cached entry is well formed when its tensor has a first row, all
  its rows have the length of the first, and it has one token count per row.  The rows
  of the outputs before the loop writes them are \<open>zero_emb_row\<close> and
  \<open>zero_len_row\<close>; \<open>hit_emb\<close> and \<open>hit_len\<close> are the rows that a cache hit writes
  over them for the batch maxima \<open>max_len\<close> and \<open>max_col_name_len\<close>.
  \<open>max_columns\<close> and \<open>max_tokens\<close> are these maxima for a batch.
\<close>

definition cache_entry_ok :: "'a list list list \<times> nat list \<Rightarrow> bool" where
  "cache_entry_ok e =
     (case e of (cached_emb, cached_lengths) \<Rightarrow>
        cached_emb \<noteq> []
        \<and> list_all (\<lambda>row. length row = size1 cached_emb) cached_emb
        \<and> length cached_lengths = length cached_emb)"

definition cache_ok :: "'a column_cache \<Rightarrow> bool" where
  "cache_ok cache = list_all (\<lambda>(key, e). cache_entry_ok e) cache"

definition zero_emb_row :: "nat \<Rightarrow> nat \<Rightarrow> nat \<Rightarrow> 'a::zero list list list" where
  "zero_emb_row max_len max_col_name_len d =
     replicate max_len (replicate max_col_name_len (replicate d 0))"

definition zero_len_row :: "nat \<Rightarrow> nat list" where
  "zero_len_row max_len = replicate max_len 0"

definition hit_emb :: "nat \<Rightarrow> nat \<Rightarrow> nat \<Rightarrow> 'a::zero list list list \<Rightarrow> 'a list list list" where
  "hit_emb max_len max_col_name_len d cached_emb =
     assign_block (zero_emb_row max_len max_col_name_len d)
       (min (length cached_emb) max_len) (min (size1 cached_emb) max_col_name_len) cached_emb"

definition hit_len :: "nat \<Rightarrow> nat \<Rightarrow> 'a list list list \<Rightarrow> nat list \<Rightarrow> nat list" where
  "hit_len max_len max_col_name_len cached_emb cached_lengths =
     take (min (length cached_emb) max_len) (map (\<lambda>n. min n max_col_name_len) cached_lengths)
     @ replicate (max_len - min (length cached_emb) max_len) 0"

definition max_columns :: "string list list list \<Rightarrow> nat" where
  "max_columns columns = Max (set (map length columns))"

definition max_tokens :: "(string \<Rightarrow> string list) \<Rightarrow> string list list list \<Rightarrow> nat" where
  "max_tokens tokenize columns =
     Max (set (concat (map (map (\<lambda>column. length (tokenize (join_space column)))) columns)))"

text \<open>
  The small embedding after \<open>get_columns_emb\<close> has cached two schemas, each in a batch
  of its own: the schema of the single column \<open>a\<close>, one column of one token, and the
  schema of the columns \<open>b c\<close> and \<open>c\<close>, two columns of at most two tokens.
\<close>

definition cached_embedding :: "rat embedding" where
  "cached_embedding = small_embedding\<lparr>column_cache :=
     [([''a''], ([[[1, 2]]], [1])),
      ([''b c'', ''c''], ([[[3, 4], [5, 8]], [[5, 8], [0, 0]]], [2, 1]))]\<rparr>"

section \<open>Properties\<close>

subsection \<open>Forward on one sentence and the errors of \<open>embed_token\<close>\<close>

lemma split_acc_spaces: "\<forall>c\<in>set s. is_space c \<Longrightarrow> split_acc [] s = []"
  by (induction s) auto

lemma split_on_acc_seps: "\<forall>c\<in>set w. c = sep \<Longrightarrow> set (split_on_acc sep [] w) \<subseteq> {[]}"
  by (induction w) auto

lemma embed_elements_empty_pieces:
  "set es \<subseteq> {[]} \<Longrightarrow> embed_elements tokenize of_len emb es = Inr []"
  by (induction es) auto

lemma embed_words_underscores:
  assumes "w \<in> set ws" and "\<forall>c\<in>set w. c = CHR ''_''"
  shows "isl (embed_words tokenize of_len emb ws)"
  using assms
proof (induction ws)
  case Nil
  then show ?case by simp
next
  case (Cons v ws)
  show ?case
  proof (cases "v = w")
    case True
    have "embed_elements tokenize of_len emb (split_on (CHR ''_'') v) = Inr []"
      unfolding split_on_def using True Cons.prems(2)
      by (intro embed_elements_empty_pieces split_on_acc_seps) simp
    then show ?thesis by (simp add: torch_mean_stack_def)
  next
    case False
    with Cons have "isl (embed_words tokenize of_len emb ws)" by simp
    then show ?thesis by (auto split: sum.splits)
  qed
qed

lemma dict_get_in_range:
  "indices_in_range emb \<Longrightarrow> dict_get (word2idx emb) w 0 < length (weight emb)"
  by (auto simp: indices_in_range_def dict_get_def list_all_iff split: option.splits dest!: map_of_SomeD)

lemma embedding_lookup_ok:
  "indices_in_range emb \<Longrightarrow>
   embedding_lookup (weight emb) (indicies_of (word2idx emb) n sw)
     = Inr (map (map (\<lambda>i. weight emb ! i)) (indicies_of (word2idx emb) n sw))"
  unfolding embedding_lookup_def indicies_of_def
  by (auto simp: list_all_iff dict_get_in_range indices_in_range_def)

lemma py_max_single: "py_max [n] = Inr n"
  by (simp add: py_max_def)

lemma indicies_of_single:
  "indicies_of w2i (length ws) [ws] = [map (\<lambda>word. dict_get w2i word 0) ws]"
  by (simp add: indicies_of_def)

lemma forward_single_mean:
  assumes "indices_in_range emb"
  shows "forward tokenize of_len emb (Str s) True =
           Inr (Mean [map (\<lambda>k. sum_rows (embedding_dim emb)
                                   (map (\<lambda>word. weight emb ! dict_get (word2idx emb) word 0)
                                      (tokenize (str_lower s))) ! k
                                 / of_len (length (tokenize (str_lower s))))
                          [0..<embedding_dim emb]],
                [length (tokenize (str_lower s))])"
  using embedding_lookup_ok [OF assms, of "length (tokenize (str_lower s))" "[tokenize (str_lower s)]"]
  by (simp add: forward_def as_list_def py_max_single div_lengths_def Let_def indicies_of_single o_def)

lemma embed_elements_error:
  "indices_in_range emb \<Longrightarrow> embed_elements tokenize of_len emb es = Inl e \<Longrightarrow> e = RuntimeError"
proof (induction es)
  case Nil
  then show ?case by simp
next
  case (Cons a es)
  from Cons show ?case
    by (auto simp: forward_single_mean split: if_splits sum.splits)
qed

lemma torch_mean_stack_error: "torch_mean_stack of_len ts = Inl e \<Longrightarrow> e = RuntimeError"
  by (auto simp: torch_mean_stack_def split: list.splits if_splits)

lemma embed_words_error:
  "indices_in_range emb \<Longrightarrow> embed_words tokenize of_len emb ws = Inl e \<Longrightarrow> e = RuntimeError"
proof (induction ws)
  case Nil
  then show ?case by simp
next
  case (Cons a ws)
  then show ?case
    by (auto split: sum.splits dest: embed_elements_error torch_mean_stack_error)
qed

lemma embed_token_error:
  assumes "indices_in_range emb" and "embed_token tokenize of_len emb token = Inl e"
  shows "e = RuntimeError"
proof (cases "embed_words tokenize of_len emb (py_split token)")
  case (Inl e')
  with assms(2) have "e' = e" by (simp add: embed_token_def)
  with Inl assms(1) show ?thesis using embed_words_error by blast
next
  case (Inr embs)
  with assms(2) have "torch_mean_stack of_len embs = Inl e" by (simp add: embed_token_def)
  then show ?thesis by (rule torch_mean_stack_error)
qed

lemma embed_token_no_words:
  assumes "\<forall>c\<in>set token. is_space c"
  shows "isl (embed_token tokenize of_len emb token)"
proof -
  from assms have "py_split token = []" by (simp add: py_split_def split_acc_spaces)
  then show ?thesis by (simp add: embed_token_def torch_mean_stack_def)
qed

lemma embed_token_underscores:
  assumes "w \<in> set (py_split token)" and "\<forall>c\<in>set w. c = CHR ''_''"
  shows "isl (embed_token tokenize of_len emb token)"
proof -
  have "isl (embed_words tokenize of_len emb (py_split token))"
    using assms by (rule embed_words_underscores)
  then show ?thesis
    by (cases "embed_words tokenize of_len emb (py_split token)") (simp_all add: embed_token_def)
qed


text \<open>
  C10: \<open>embed_token\<close> raises when its argument is empty or only whitespace, or when one
  of its words consists of underscores only; with a vocabulary whose indices are rows
  of the weight, the exception is the \<open>RuntimeError\<close> of \<open>torch.stack\<close> on an empty list.
\<close>

theorem embed_token_raises:
  assumes "(\<forall>c\<in>set token. is_space c)
           \<or> (\<exists>w\<in>set (py_split token). \<forall>c\<in>set w. c = CHR ''_'')"
  shows "(\<exists>e. embed_token tokenize of_len emb token = Inl e)
         \<and> (indices_in_range emb \<longrightarrow> embed_token tokenize of_len emb token = Inl RuntimeError)"
proof -
  have "isl (embed_token tokenize of_len emb token)"
    using assms
  proof (elim disjE bexE)
    assume "\<forall>c\<in>set token. is_space c"
    then show ?thesis by (rule embed_token_no_words)
  next
    fix w
    assume "w \<in> set (py_split token)" and "\<forall>c\<in>set w. c = CHR ''_''"
    then show ?thesis by (rule embed_token_underscores)
  qed
  then obtain e where e: "embed_token tokenize of_len emb token = Inl e"
    by (cases "embed_token tokenize of_len emb token") simp_all
  show ?thesis
  proof (intro conjI impI)
    show "\<exists>e. embed_token tokenize of_len emb token = Inl e"
      using e by (rule exI)
    assume "indices_in_range emb"
    then have "e = RuntimeError" using e by (rule embed_token_error)
    with e show "embed_token tokenize of_len emb token = Inl RuntimeError" by (simp only:)
  qed
qed

theorem embed_token_raises_witness:
  "embed_token py_split of_nat small_embedding ''a ___'' = Inl RuntimeError"
  using embed_token_raises [of "''a ___''" py_split of_nat small_embedding]
  by (simp add: py_split_def is_space_def indices_in_range_def small_embedding_def)

subsection \<open>The padded tensor of \<open>forward\<close>\<close>

lemma py_max_Max: "py_max xs = Inr (Max (set xs))" if "xs \<noteq> []"
proof (cases xs)
  case Nil
  then show ?thesis using that by simp
next
  case (Cons y ys)
  then show ?thesis using Max.set_eq_fold [of y ys] by (simp add: py_max_def)
qed

lemma forward_seq:
  assumes "as_list ss \<noteq> []" and "indices_in_range emb"
  shows "forward tokenize of_len emb ss False =
           Inr (Seq (map (map (\<lambda>i. weight emb ! i))
                       (indicies_of (word2idx emb) (Max (set (token_counts tokenize ss)))
                          (map tokenize (map str_lower (as_list ss))))),
                token_counts tokenize ss)"
proof -
  have "py_max (map length (map tokenize (map str_lower (as_list ss))))
          = Inr (Max (set (token_counts tokenize ss)))"
    using assms(1) py_max_Max [of "token_counts tokenize ss"]
    by (simp add: token_counts_def o_def)
  then show ?thesis
    using embedding_lookup_ok [OF assms(2)]
    by (simp add: forward_def Let_def token_counts_def o_def)
qed

text \<open>
  C7: for a non-empty batch, with a vocabulary whose indices are rows of the weight and
  whose row 0 is the zero vector, \<open>forward\<close> without \<open>mean_sequence\<close> returns one row
  per sentence, each as long as the longest sentence, together with the true token
  counts, none of which exceeds that length, and every position from a sentence's token
  count on holds the zero vector.
\<close>

theorem forward_padded:
  assumes "as_list ss \<noteq> []" and "indices_in_range emb"
    and "weight emb ! 0 = replicate (embedding_dim emb) 0"
  shows "\<exists>t. forward tokenize of_len emb ss False = Inr (Seq t, token_counts tokenize ss)
           \<and> length (token_counts tokenize ss) = length (as_list ss)
           \<and> length t = length (as_list ss)
           \<and> (\<forall>i<length (as_list ss).
                 token_counts tokenize ss ! i = length (tokenize (str_lower (as_list ss ! i)))
               \<and> length (t ! i) = Max (set (token_counts tokenize ss))
               \<and> token_counts tokenize ss ! i \<le> length (t ! i)
               \<and> (\<forall>j<length (t ! i). token_counts tokenize ss ! i \<le> j
                      \<longrightarrow> t ! i ! j = replicate (embedding_dim emb) 0))"
proof -
  let ?M = "Max (set (token_counts tokenize ss))"
  let ?t = "map (map (\<lambda>i. weight emb ! i))
              (indicies_of (word2idx emb) ?M (map tokenize (map str_lower (as_list ss))))"
  have le: "token_counts tokenize ss ! i \<le> ?M" if "i < length (as_list ss)" for i
    using that by (simp add: token_counts_def)
  have cnt: "token_counts tokenize ss ! i = length (tokenize (str_lower (as_list ss ! i)))"
    if "i < length (as_list ss)" for i
    using that by (simp add: token_counts_def)
  have row: "?t ! i = map (\<lambda>i. weight emb ! i)
                (map (\<lambda>word. dict_get (word2idx emb) word 0) (tokenize (str_lower (as_list ss ! i)))
                 @ replicate (?M - length (tokenize (str_lower (as_list ss ! i)))) 0)"
    if "i < length (as_list ss)" for i
    using that by (simp add: indicies_of_def)
  have len: "length (?t ! i) = ?M" if "i < length (as_list ss)" for i
    using le [OF that] cnt [OF that] row [OF that] by simp
  have pad: "?t ! i ! j = replicate (embedding_dim emb) 0"
    if "i < length (as_list ss)" and "j < length (?t ! i)" and "token_counts tokenize ss ! i \<le> j" for i j
  proof -
    from that len have "j < ?M" by simp
    with that(3) cnt [OF that(1)] show ?thesis
      unfolding row [OF that(1)] by (simp add: nth_append assms(3))
  qed
  have "forward tokenize of_len emb ss False = Inr (Seq ?t, token_counts tokenize ss)"
    using assms(1,2) by (rule forward_seq)
  moreover have "length ?t = length (as_list ss)" by (simp add: indicies_of_def)
  moreover have "length (token_counts tokenize ss) = length (as_list ss)"
    by (simp add: token_counts_def)
  moreover have "\<forall>i<length (as_list ss).
                 token_counts tokenize ss ! i = length (tokenize (str_lower (as_list ss ! i)))
               \<and> length (?t ! i) = ?M
               \<and> token_counts tokenize ss ! i \<le> length (?t ! i)
               \<and> (\<forall>j<length (?t ! i). token_counts tokenize ss ! i \<le> j
                      \<longrightarrow> ?t ! i ! j = replicate (embedding_dim emb) 0)"
  proof (intro allI impI conjI)
    fix i assume i: "i < length (as_list ss)"
    show "token_counts tokenize ss ! i = length (tokenize (str_lower (as_list ss ! i)))"
      using i by (rule cnt)
    show "length (?t ! i) = ?M" using i by (rule len)
    show "token_counts tokenize ss ! i \<le> length (?t ! i)"
      using le [OF i] len [OF i] by (simp only:)
    fix j assume "j < length (?t ! i)" and "token_counts tokenize ss ! i \<le> j"
    with i show "?t ! i ! j = replicate (embedding_dim emb) 0" by (rule pad)
  qed
  ultimately show ?thesis by (intro exI [of _ ?t] conjI)
qed

theorem forward_padded_witness:
  "\<exists>t. forward py_split of_nat small_embedding (StrList [''a b'', ''a'']) False
          = Inr (Seq t, [2, 1])
       \<and> length t = 2 \<and> length (t ! 0) = 2 \<and> length (t ! 1) = 2 \<and> t ! 1 ! 1 = [0, 0]"
proof -
  let ?ss = "StrList [''a b'', ''a'']"
  have h1: "as_list ?ss \<noteq> []" by code_simp
  have h2: "indices_in_range small_embedding" by code_simp
  have h3: "weight small_embedding ! 0 = replicate (embedding_dim small_embedding) 0"
    by code_simp
  have counts: "token_counts py_split ?ss = [2, 1]" by code_simp
  have n: "length (as_list ?ss) = 2" by code_simp
  from forward_padded [OF h1 h2 h3, of py_split of_nat]
  obtain t where fw: "forward py_split of_nat small_embedding ?ss False = Inr (Seq t, [2, 1])"
    and len: "length t = 2"
    and rows: "\<forall>i<2. [2, 1] ! i = length (py_split (str_lower (as_list ?ss ! i)))
               \<and> length (t ! i) = Max (set [2, 1::nat])
               \<and> [2, 1] ! i \<le> length (t ! i)
               \<and> (\<forall>j<length (t ! i). [2, 1] ! i \<le> j
                      \<longrightarrow> t ! i ! j = replicate (embedding_dim small_embedding) 0)"
    unfolding counts n by blast
  from rows have r0: "length (t ! 0) = 2" and r1: "length (t ! 1) = 2"
    by simp_all
  from rows have "\<forall>j<length (t ! 1). [2, 1::nat] ! 1 \<le> j
                      \<longrightarrow> t ! 1 ! j = replicate (embedding_dim small_embedding) 0"
    by simp
  with r1 have "t ! 1 ! 1 = replicate (embedding_dim small_embedding) 0" by simp
  moreover have "replicate (embedding_dim small_embedding) 0 = [0, 0::rat]" by code_simp
  ultimately have "t ! 1 ! 1 = [0, 0]" by (simp only:)
  with fw len r0 r1 show ?thesis by blast
qed

subsection \<open>The mean over the sequence\<close>

lemma forward_mean_div:
  assumes "as_list ss \<noteq> []" and "indices_in_range emb"
  shows "forward tokenize of_len emb ss True =
           (case div_lengths of_len (embedding_dim emb)
                   (map (sum_rows (embedding_dim emb))
                      (map (map (\<lambda>i. weight emb ! i))
                         (indicies_of (word2idx emb) (Max (set (token_counts tokenize ss)))
                            (map tokenize (map str_lower (as_list ss))))))
                   (token_counts tokenize ss) of
              Inl e \<Rightarrow> Inl e
            | Inr m \<Rightarrow> Inr (Mean m, token_counts tokenize ss))"
proof -
  have "py_max (map length (map tokenize (map str_lower (as_list ss))))
          = Inr (Max (set (token_counts tokenize ss)))"
    using assms(1) py_max_Max [of "token_counts tokenize ss"]
    by (simp add: token_counts_def o_def)
  then show ?thesis
    using embedding_lookup_ok [OF assms(2)]
    by (simp add: forward_def Let_def token_counts_def o_def split: sum.splits)
qed

text \<open>
  C3: with \<open>mean_sequence\<close>, line 80 divides the sums of shape (batch, features) by
  the lengths of shape (batch).  For a batch of more than one sentence whose size is
  not the number of features (and more than one feature), the shapes do not broadcast
  and \<open>forward\<close> raises instead of returning the means of the sentences.
\<close>

theorem forward_mean_batch_raises:
  assumes "indices_in_range emb" and "1 < length (as_list ss)"
    and "length (as_list ss) \<noteq> embedding_dim emb" and "embedding_dim emb \<noteq> 1"
  shows "forward tokenize of_len emb ss True = Inl RuntimeError"
proof -
  from assms(2) have ne: "as_list ss \<noteq> []" by auto
  have "length (token_counts tokenize ss) = length (as_list ss)"
    by (simp add: token_counts_def)
  with assms(2,3,4) have "div_lengths of_len (embedding_dim emb) totals (token_counts tokenize ss)
                            = Inl RuntimeError" for totals
    by (simp add: div_lengths_def Let_def)
  then show ?thesis
    unfolding forward_mean_div [OF ne assms(1)] by simp
qed

theorem forward_mean_batch_raises_witness:
  "forward py_split of_nat small_embedding (StrList [''a'', ''b'', ''a b'']) True
     = Inl RuntimeError"
proof -
  let ?ss = "StrList [''a'', ''b'', ''a b'']"
  have h1: "indices_in_range small_embedding" by code_simp
  have h2: "1 < length (as_list ?ss)" by code_simp
  have h3: "length (as_list ?ss) \<noteq> embedding_dim small_embedding" by code_simp
  have h4: "embedding_dim small_embedding \<noteq> 1" by code_simp
  show ?thesis using h1 h2 h3 h4 by (rule forward_mean_batch_raises)
qed

text \<open>
  When the batch has as many sentences as there are features, the division succeeds
  but feature \<open>k\<close> is divided by the length of sentence \<open>k\<close>: for the sentences
  \<open>a b\<close> and \<open>a\<close> the means would be \<open>[2, 3]\<close> and \<open>[1, 2]\<close>.
\<close>

lemma forward_mean_wrong_divisor:
  "forward py_split of_nat small_embedding (StrList [''a b'', ''a'']) True
     = Inr (Mean [[2, 6], [1 / 2, 2]], [2, 1])"
  by code_simp

text \<open>
  For one sentence the division is by its own length, and the mean of a sentence of one
  token is the row of that token when division by the float 1 is exact.
\<close>

lemma fsum_single: "fsum [x] = x"
  by (simp add: fsum_def)

lemma forward_mean_single_token:
  assumes "indices_in_range emb" and "tokenize (str_lower s) = [w]"
    and "\<forall>x. x / of_len 1 = x"
    and "length (weight emb ! dict_get (word2idx emb) w 0) = embedding_dim emb"
  shows "forward tokenize of_len emb (Str s) True
           = Inr (Mean [weight emb ! dict_get (word2idx emb) w 0], [1])"
proof -
  let ?row = "weight emb ! dict_get (word2idx emb) w 0"
  have "map (\<lambda>k. sum_rows (embedding_dim emb) [?row] ! k / of_len (length [w]))
          [0..<embedding_dim emb] = ?row"
    using assms(3,4) by (auto simp: sum_rows_def fsum_single intro!: nth_equalityI)
  then show ?thesis
    using assms(2) by (simp add: forward_single_mean [OF assms(1)])
qed

subsection \<open>The two-level mean of \<open>embed_token\<close>\<close>

lemma sub_part_vector_eq:
  assumes "indices_in_range emb"
  shows "forward tokenize of_len emb (Str e) True
           = Inr (Mean (sub_part_vector tokenize of_len emb e), [length (tokenize (str_lower e))])"
  by (simp add: sub_part_vector_def forward_single_mean [OF assms])

lemma sub_part_vector_shape:
  assumes "indices_in_range emb"
  shows "rectangular (sub_part_vector tokenize of_len emb e)"
    and "shape2 (sub_part_vector tokenize of_len emb e) = (1, embedding_dim emb)"
  by (simp_all add: sub_part_vector_def forward_single_mean [OF assms] rectangular_def shape2_def)

lemma embed_elements_ok:
  assumes "indices_in_range emb"
  shows "embed_elements tokenize of_len emb es
           = Inr (map (sub_part_vector tokenize of_len emb) (filter (\<lambda>e. e \<noteq> []) es))"
  by (induction es) (simp_all add: sub_part_vector_eq [OF assms])

lemma torch_mean_stack_ok:
  assumes "ts \<noteq> []" and "\<forall>t\<in>set ts. rectangular t \<and> shape2 t = sh"
  shows "torch_mean_stack of_len ts = Inr (mean_stack of_len ts)"
  using assms by (cases ts) (auto simp: torch_mean_stack_def list_all_iff)

lemma mean_stack_shape:
  assumes "ts \<noteq> []" and "\<forall>t\<in>set ts. shape2 t = (1, d)"
  shows "rectangular (mean_stack of_len ts)" and "shape2 (mean_stack of_len ts) = (1, d)"
proof -
  from assms have "shape2 (hd ts) = (1, d)" by (cases ts) auto
  then show "rectangular (mean_stack of_len ts)" and "shape2 (mean_stack of_len ts) = (1, d)"
    by (simp_all add: mean_stack_def rectangular_def shape2_def)
qed

lemma split_on_acc_piece:
  "cur \<noteq> [] \<or> (\<exists>c\<in>set s. c \<noteq> sep) \<Longrightarrow> \<exists>e\<in>set (split_on_acc sep cur s). e \<noteq> []"
  by (induction s arbitrary: cur) auto

lemma split_on_pieces:
  assumes "\<exists>c\<in>set w. c \<noteq> sep"
  shows "filter (\<lambda>e. e \<noteq> []) (split_on sep w) \<noteq> []"
  using split_on_acc_piece [of "[]" w sep] assms
  by (auto simp: split_on_def filter_empty_conv)

lemma embed_words_ok:
  assumes "indices_in_range emb" and "\<forall>w\<in>set ws. \<exists>c\<in>set w. c \<noteq> CHR ''_''"
  shows "embed_words tokenize of_len emb ws
           = Inr (map (\<lambda>w. mean_stack of_len (map (sub_part_vector tokenize of_len emb)
                                (filter (\<lambda>e. e \<noteq> []) (split_on (CHR ''_'') w)))) ws)"
  using assms(2)
proof (induction ws)
  case Nil
  then show ?case by simp
next
  case (Cons w ws)
  let ?vs = "map (sub_part_vector tokenize of_len emb)
               (filter (\<lambda>e. e \<noteq> []) (split_on (CHR ''_'') w))"
  from Cons.prems have "?vs \<noteq> []" by (simp add: split_on_pieces)
  moreover have "\<forall>t\<in>set ?vs. rectangular t \<and> shape2 t = (1, embedding_dim emb)"
    using sub_part_vector_shape [OF assms(1)] by auto
  ultimately have "torch_mean_stack of_len ?vs = Inr (mean_stack of_len ?vs)"
    by (rule torch_mean_stack_ok)
  with Cons show ?case by (simp add: embed_elements_ok [OF assms(1)])
qed

lemma word_mean_shape:
  assumes "indices_in_range emb" and "\<exists>c\<in>set w. c \<noteq> CHR ''_''"
  shows "rectangular (mean_stack of_len (map (sub_part_vector tokenize of_len emb)
                                (filter (\<lambda>e. e \<noteq> []) (split_on (CHR ''_'') w))))
       \<and> shape2 (mean_stack of_len (map (sub_part_vector tokenize of_len emb)
                                (filter (\<lambda>e. e \<noteq> []) (split_on (CHR ''_'') w))))
           = (1, embedding_dim emb)"
proof -
  let ?vs = "map (sub_part_vector tokenize of_len emb)
               (filter (\<lambda>e. e \<noteq> []) (split_on (CHR ''_'') w))"
  from assms(2) have "?vs \<noteq> []" by (simp add: split_on_pieces)
  moreover have "\<forall>t\<in>set ?vs. shape2 t = (1, embedding_dim emb)"
    using sub_part_vector_shape [OF assms(1)] by auto
  ultimately show ?thesis using mean_stack_shape by blast
qed

lemma embed_token_ok:
  assumes "indices_in_range emb" and "py_split token \<noteq> []"
    and "\<forall>w\<in>set (py_split token). \<exists>c\<in>set w. c \<noteq> CHR ''_''"
  shows "embed_token tokenize of_len emb token
           = Inr (mean_stack of_len
                    (map (\<lambda>w. mean_stack of_len (map (sub_part_vector tokenize of_len emb)
                                 (filter (\<lambda>e. e \<noteq> []) (split_on (CHR ''_'') w))))
                       (py_split token)))"
proof -
  let ?ms = "map (\<lambda>w. mean_stack of_len (map (sub_part_vector tokenize of_len emb)
                                 (filter (\<lambda>e. e \<noteq> []) (split_on (CHR ''_'') w))))
                       (py_split token)"
  have "?ms \<noteq> []" using assms(2) by simp
  moreover have "\<forall>t\<in>set ?ms. rectangular t \<and> shape2 t = (1, embedding_dim emb)"
    using word_mean_shape [OF assms(1)] assms(3) by auto
  ultimately have "torch_mean_stack of_len ?ms = Inr (mean_stack of_len ?ms)"
    by (rule torch_mean_stack_ok)
  then show ?thesis
    by (simp add: embed_token_def embed_words_ok [OF assms(1,3)])
qed

lemma mean_stack_single:
  assumes "\<forall>x. x / of_len 1 = x" and "rectangular m"
  shows "mean_stack of_len [m] = m"
proof (cases m)
  case Nil
  then show ?thesis by (simp add: mean_stack_def shape2_def)
next
  case (Cons r rs)
  have rows: "length (m ! i) = length r" if "i < length m" for i
    using that assms(2) Cons by (cases i) (auto simp: rectangular_def list_all_iff)
  have sh: "shape2 m = (length m, length r)"
    using Cons by (simp add: shape2_def)
  have "mean_stack of_len [m] = map (\<lambda>i. map (\<lambda>k. m ! i ! k) [0..<length r]) [0..<length m]"
    using assms(1) by (simp add: mean_stack_def fsum_single sh)
  also have "\<dots> = m"
  proof (rule nth_equalityI)
    show "length (map (\<lambda>i. map (\<lambda>k. m ! i ! k) [0..<length r]) [0..<length m]) = length m"
      by simp
    fix i assume "i < length (map (\<lambda>i. map (\<lambda>k. m ! i ! k) [0..<length r]) [0..<length m])"
    then have i: "i < length m" by simp
    have "map (\<lambda>k. m ! i ! k) [0..<length r] = m ! i"
      using rows [OF i] by (intro nth_equalityI) simp_all
    with i show "map (\<lambda>i. map (\<lambda>k. m ! i ! k) [0..<length r]) [0..<length m] ! i = m ! i"
      by simp
  qed
  finally show ?thesis .
qed

text \<open>
  C6: with a vocabulary whose indices are rows of the weight, \<open>embed_token\<close> of a
  token that has a word, and whose words each have a character other than the
  underscore, is the mean over its words of the mean over the non-empty underscore
  pieces of the word, each piece embedded with \<open>mean_sequence=True\<close>; empty pieces are
  skipped.  For \<open>a_b c\<close> this is the mean of the mean of the vectors of \<open>a\<close> and
  \<open>b\<close> and of the vector of \<open>c\<close>, the mean of the single vector of \<open>c\<close> being that
  vector when division by the float 1 is exact.
\<close>

theorem embed_token_two_level_mean:
  assumes "indices_in_range emb"
  shows "(py_split token \<noteq> [] \<and> (\<forall>w\<in>set (py_split token). \<exists>c\<in>set w. c \<noteq> CHR ''_'')
            \<longrightarrow> embed_token tokenize of_len emb token
                  = Inr (mean_stack of_len
                      (map (\<lambda>w. mean_stack of_len (map (sub_part_vector tokenize of_len emb)
                                   (filter (\<lambda>e. e \<noteq> []) (split_on (CHR ''_'') w))))
                         (py_split token))))
       \<and> ((\<forall>x. x / of_len 1 = x)
            \<longrightarrow> embed_token tokenize of_len emb ''a_b c''
                  = Inr (mean_stack of_len
                      [mean_stack of_len [sub_part_vector tokenize of_len emb ''a'',
                                          sub_part_vector tokenize of_len emb ''b''],
                       sub_part_vector tokenize of_len emb ''c'']))"
proof (intro conjI impI)
  assume "py_split token \<noteq> [] \<and> (\<forall>w\<in>set (py_split token). \<exists>c\<in>set w. c \<noteq> CHR ''_'')"
  then show "embed_token tokenize of_len emb token
                  = Inr (mean_stack of_len
                      (map (\<lambda>w. mean_stack of_len (map (sub_part_vector tokenize of_len emb)
                                   (filter (\<lambda>e. e \<noteq> []) (split_on (CHR ''_'') w))))
                         (py_split token)))"
    using embed_token_ok [OF assms] by blast
next
  assume law: "\<forall>x. x / of_len 1 = x"
  have words: "py_split ''a_b c'' = [''a_b'', ''c'']" by code_simp
  have p1: "filter (\<lambda>e. e \<noteq> []) (split_on (CHR ''_'') ''a_b'') = [''a'', ''b'']" by code_simp
  have p2: "filter (\<lambda>e. e \<noteq> []) (split_on (CHR ''_'') ''c'') = [''c'']" by code_simp
  have "embed_token tokenize of_len emb ''a_b c''
          = Inr (mean_stack of_len
              (map (\<lambda>w. mean_stack of_len (map (sub_part_vector tokenize of_len emb)
                           (filter (\<lambda>e. e \<noteq> []) (split_on (CHR ''_'') w))))
                 (py_split ''a_b c'')))"
    by (rule embed_token_ok [OF assms]) (simp_all add: words)
  moreover have "mean_stack of_len [sub_part_vector tokenize of_len emb ''c'']
                   = sub_part_vector tokenize of_len emb ''c''"
    using law sub_part_vector_shape(1) [OF assms] by (rule mean_stack_single)
  ultimately show "embed_token tokenize of_len emb ''a_b c''
                  = Inr (mean_stack of_len
                      [mean_stack of_len [sub_part_vector tokenize of_len emb ''a'',
                                          sub_part_vector tokenize of_len emb ''b''],
                       sub_part_vector tokenize of_len emb ''c''])"
    by (simp add: words p1 p2)
qed


theorem embed_token_two_level_mean_witness:
  "embed_token py_split of_nat small_embedding ''a_b c'' = Inr [[7 / 2, 11 / 2]]
   \<and> sub_part_vector py_split of_nat small_embedding ''a'' = [[1, 2]]
   \<and> sub_part_vector py_split of_nat small_embedding ''b'' = [[3, 4]]
   \<and> sub_part_vector py_split of_nat small_embedding ''c'' = [[5, 8]]"
proof -
  have h: "indices_in_range small_embedding" by code_simp
  have law: "\<forall>x::rat. x / of_nat 1 = x" by simp
  have va: "sub_part_vector py_split of_nat small_embedding ''a'' = [[1, 2]]" by code_simp
  have vb: "sub_part_vector py_split of_nat small_embedding ''b'' = [[3, 4]]" by code_simp
  have vc: "sub_part_vector py_split of_nat small_embedding ''c'' = [[5, 8]]" by code_simp
  have m: "mean_stack of_nat [mean_stack of_nat [[[1, 2]], [[3, 4]]], [[5, 8]]]
             = [[7 / 2, 11 / 2 :: rat]]"
    by code_simp
  from embed_token_two_level_mean [OF h, of "''a_b c''" py_split of_nat] law
  have "embed_token py_split of_nat small_embedding ''a_b c''
          = Inr (mean_stack of_nat
                   [mean_stack of_nat [sub_part_vector py_split of_nat small_embedding ''a'',
                                       sub_part_vector py_split of_nat small_embedding ''b''],
                    sub_part_vector py_split of_nat small_embedding ''c''])"
    by blast
  then show ?thesis unfolding va vb vc m using va vb vc by (simp only: simp_thms)
qed

subsection \<open>Loading the vocabulary file\<close>

lemma length_update_new:
  "map_of al k = None \<Longrightarrow> length (AList.update k v al) = Suc (length al)"
  by (induction al) auto

lemma asarray_float_ok:
  "\<forall>s\<in>set ss. to_float s \<noteq> None \<Longrightarrow>
   asarray_float to_float ss = Inr (map (\<lambda>s. the (to_float s)) ss)"
  by (induction ss) auto

lemma line_token_triple [simp]: "line_token (i, t, v) = t"
  by (simp add: line_token_def)

lemma insert_all_Cons:
  "insert_all ((i, t, v) # rs) w2i = insert_all rs (AList.update t i w2i)"
  by (simp add: insert_all_def)

lemma glove_lines_retained:
  assumes "\<forall>l\<in>set ls. py_split l \<noteq> []"
    and "\<forall>r\<in>set (retained idx seen ls). \<forall>s\<in>set (snd (snd r)). to_float s \<noteq> None"
    and "set seen = fst ` set w2i"
  shows "glove_lines to_float idx w2i vecs ls
           = Inr (insert_all (retained idx seen ls) w2i,
                  vecs @ map (line_vector to_float) (retained idx seen ls))"
  using assms
proof (induction ls arbitrary: idx w2i vecs seen)
  case Nil
  then show ?case by (simp add: insert_all_def)
next
  case (Cons l ls)
  from Cons.prems(1) obtain token vector where sp: "py_split l = token # vector"
    by (cases "py_split l") auto
  have none: "map_of w2i token = None \<longleftrightarrow> token \<notin> set seen"
    using Cons.prems(3) by (simp add: map_of_eq_None_iff)
  show ?case
  proof (cases "length vector = 300 \<and> token \<notin> set seen")
    case True
    then have ret: "retained idx seen (l # ls)
                      = (idx, token, vector) # retained (Suc idx) (token # seen) ls"
      by (simp add: sp)
    from Cons.prems(2) have "\<forall>s\<in>set vector. to_float s \<noteq> None"
      unfolding ret by simp
    then have conv: "asarray_float to_float vector = Inr (map (\<lambda>s. the (to_float s)) vector)"
      by (rule asarray_float_ok)
    have keys: "set (token # seen) = fst ` set (AList.update token idx w2i)"
      using Cons.prems(3) by (simp add: dom_update)
    have "glove_lines to_float (Suc idx) (AList.update token idx w2i)
            (vecs @ [map (\<lambda>s. the (to_float s)) vector]) ls
          = Inr (insert_all (retained (Suc idx) (token # seen) ls) (AList.update token idx w2i),
                 (vecs @ [map (\<lambda>s. the (to_float s)) vector])
                   @ map (line_vector to_float) (retained (Suc idx) (token # seen) ls))"
      using Cons.prems(1) Cons.prems(2) keys unfolding ret
      by (intro Cons.IH) simp_all
    then show ?thesis
      using True none by (simp add: sp conv ret insert_all_Cons line_vector_def)
  next
    case False
    then have ret: "retained idx seen (l # ls) = retained (Suc idx) seen ls"
      by (auto simp: sp)
    have "glove_lines to_float (Suc idx) w2i vecs ls
          = Inr (insert_all (retained (Suc idx) seen ls) w2i,
                 vecs @ map (line_vector to_float) (retained (Suc idx) seen ls))"
      using Cons.prems unfolding ret by (intro Cons.IH) simp_all
    then show ?thesis
      using False none by (auto simp: sp ret)
  qed
qed

lemma retained_tokens:
  "distinct (map line_token (retained idx seen ls))
   \<and> set (map line_token (retained idx seen ls)) \<inter> set seen = {}"
proof (induction ls arbitrary: idx seen)
  case Nil
  then show ?case by simp
next
  case (Cons l ls)
  show ?case
  proof (cases "py_split l")
    case Nil
    then show ?thesis using Cons.IH [of "Suc idx" seen] by simp
  next
    case (Cons token vector)
    then show ?thesis
      using Cons.IH [of "Suc idx" seen] Cons.IH [of "Suc idx" "token # seen"]
      by auto
  qed
qed

lemma retained_length:
  "r \<in> set (retained idx seen ls) \<Longrightarrow> length (snd (snd r)) = 300"
proof (induction ls arbitrary: idx seen)
  case Nil
  then show ?case by simp
next
  case (Cons l ls)
  then show ?case by (auto split: list.splits if_splits)
qed

lemma insert_all_keys:
  "fst ` set (insert_all rs w2i) = fst ` set w2i \<union> set (map line_token rs)"
proof (induction rs arbitrary: w2i)
  case Nil
  then show ?case by (simp add: insert_all_def)
next
  case (Cons r rs)
  obtain i t v where r: "r = (i, t, v)" by (cases r)
  show ?case unfolding r insert_all_Cons Cons.IH
    by (auto simp: dom_update)
qed

lemma insert_all_length:
  assumes "distinct (map line_token rs)" and "set (map line_token rs) \<inter> fst ` set w2i = {}"
  shows "length (insert_all rs w2i) = length w2i + length rs"
  using assms
proof (induction rs arbitrary: w2i)
  case Nil
  then show ?case by (simp add: insert_all_def)
next
  case (Cons r rs)
  obtain i t v where r: "r = (i, t, v)" by (cases r)
  from Cons.prems have new: "map_of w2i t = None"
    by (simp add: r map_of_eq_None_iff)
  from Cons.prems have "distinct (map line_token rs)"
    and "set (map line_token rs) \<inter> fst ` set (AList.update t i w2i) = {}"
    by (auto simp: r dom_update)
  then have "length (insert_all rs (AList.update t i w2i))
               = length (AList.update t i w2i) + length rs"
    by (rule Cons.IH)
  then show ?case unfolding r insert_all_Cons by (simp add: length_update_new [OF new])
qed



lemma copy_matrix_same:
  assumes "src \<noteq> []" and "length src = n" and "\<forall>r\<in>set src. length r = d"
  shows "copy_matrix n d src = Inr src"
proof -
  obtain r rs where src: "src = r # rs" using assms(1) by (cases src) auto
  have rect: "rectangular src"
    using assms(3) by (simp add: src rectangular_def list_all_iff)
  have k: "length r = d" using assms(3) by (simp add: src)
  let ?copy = "map (\<lambda>i. map (\<lambda>j. src ! (if n = 1 then 0 else i) ! (if d = 1 then 0 else j))
                 [0..<d]) [0..<n]"
  have "?copy = src"
  proof (rule nth_equalityI)
    show "length ?copy = length src"
      using assms(2) by simp
    fix i
    assume "i < length ?copy"
    then have i: "i < n" by simp
    then have row: "length (src ! i) = d" using assms(2,3) by simp
    have i0: "(if n = 1 then 0 else i) = i" using i by simp
    have "?copy ! i
          = map (\<lambda>j. src ! (if n = 1 then 0 else i) ! (if d = 1 then 0 else j)) [0..<d]"
      using i by (simp del: One_nat_def)
    also have "\<dots> = map (\<lambda>j. src ! i ! (if d = 1 then 0 else j)) [0..<d]"
      unfolding i0 ..
    also have "\<dots> = src ! i"
      using row by (intro nth_equalityI) auto
    finally show "?copy ! i = src ! i" .
  qed
  then show ?thesis
    using rect k assms(2) by (simp add: copy_matrix_def src Let_def)
qed

lemma glove_init_loaded:
  assumes nonblank: "\<forall>l\<in>set file_lines. py_split l \<noteq> []"
    and parse: "\<forall>r\<in>set (retained_lines file_lines). \<forall>s\<in>set (snd (snd r)). to_float s \<noteq> None"
    and some: "retained_lines file_lines \<noteq> []"
    and unk: "''<unknown>'' \<notin> set (map line_token (retained_lines file_lines))"
  shows "glove_init to_float file_lines cache_on =
           Inr \<lparr>num_embeddings = Suc (length (retained_lines file_lines)),
                embedding_dim = 300,
                word2idx = AList.update ''<unknown>'' 0 (insert_all (retained_lines file_lines) []),
                vectors = replicate 300 0 # map (line_vector to_float) (retained_lines file_lines),
                column_cache = [], use_column_cache = cache_on,
                weight = replicate 300 0 # map (line_vector to_float) (retained_lines file_lines)\<rparr>"
proof -
  let ?R = "retained_lines file_lines"
  have R1: "?R = retained (Suc 0) [] file_lines" by (simp add: retained_lines_def)
  let ?vecs = "map (line_vector to_float) ?R"
  have loop: "glove_lines to_float 1 [] [] file_lines = Inr (insert_all ?R [], ?vecs)"
    using glove_lines_retained [of file_lines "Suc 0" "[]" to_float "[]" "[]"] nonblank parse
    by (simp add: R1)
  obtain r rs where R: "?R = r # rs" using some by (cases ?R) auto
  have len: "length (line_vector to_float x) = 300" if "x \<in> set ?R" for x
    using retained_length [of x "Suc 0" "[]" file_lines] that
    by (simp add: line_vector_def R1)
  have "r \<in> set ?R" unfolding R by simp
  then have v0: "length (line_vector to_float r) = 300" by (rule len)
  have keys: "fst ` set (insert_all ?R []) = set (map line_token ?R)"
    by (simp add: insert_all_keys)
  have "map_of (insert_all ?R []) ''<unknown>'' = None"
    using unk keys by (simp add: map_of_eq_None_iff)
  then have n: "length (AList.update ''<unknown>'' 0 (insert_all ?R [])) = Suc (length ?R)"
    using insert_all_length [of ?R "[]"] retained_tokens [of "Suc 0" "[]" file_lines]
    by (simp add: length_update_new R1)
  have "copy_matrix (Suc (length ?R)) 300 (replicate 300 0 # ?vecs)
          = Inr (replicate 300 0 # ?vecs)"
    using len by (intro copy_matrix_same) auto
  then have "pretrained_init (Suc (length ?R)) 300
               (AList.update ''<unknown>'' 0 (insert_all ?R [])) (replicate 300 0 # ?vecs) cache_on
             = Inr \<lparr>num_embeddings = Suc (length ?R), embedding_dim = 300,
                word2idx = AList.update ''<unknown>'' 0 (insert_all ?R []),
                vectors = replicate 300 0 # ?vecs,
                column_cache = [], use_column_cache = cache_on,
                weight = replicate 300 0 # ?vecs\<rparr>"
    by (simp add: pretrained_init_def)
  moreover have "glove_init to_float file_lines cache_on
                   = pretrained_init (Suc (length ?R)) 300
                       (AList.update ''<unknown>'' 0 (insert_all ?R []))
                       (replicate 300 0 # ?vecs) cache_on"
    unfolding glove_init_def using loop n v0 by (simp add: R Let_def)
  ultimately show ?thesis by simp
qed

lemma split_acc_word:
  "\<forall>c\<in>set w. \<not> is_space c \<Longrightarrow> split_acc cur (w @ rest) = split_acc (cur @ w) rest"
  by (induction w arbitrary: cur) auto

lemma split_acc_space: "is_space (CHR '' '')"
  by (simp add: is_space_def)

lemma split_acc_repeat:
  assumes "v \<noteq> []" and "\<forall>c\<in>set v. \<not> is_space c"
  shows "cur \<noteq> [] \<Longrightarrow> split_acc cur (concat (replicate n ('' '' @ v))) = cur # replicate n v"
proof (induction n arbitrary: cur)
  case 0
  then show ?case by simp
next
  case (Suc n)
  have "split_acc cur (concat (replicate (Suc n) ('' '' @ v)))
          = cur # split_acc [] (v @ concat (replicate n ('' '' @ v)))"
    using Suc.prems by (simp add: split_acc_space)
  also have "split_acc [] (v @ concat (replicate n ('' '' @ v)))
          = split_acc v (concat (replicate n ('' '' @ v)))"
    using split_acc_word [OF assms(2), of "[]"] by simp
  also have "\<dots> = v # replicate n v"
    using assms(1) by (rule Suc.IH)
  finally show ?case by simp
qed

lemma py_split_glove_line:
  assumes "token \<noteq> []" and "\<forall>c\<in>set token. \<not> is_space c"
    and "v \<noteq> []" and "\<forall>c\<in>set v. \<not> is_space c"
  shows "py_split (glove_line token v) = token # replicate 300 v"
proof -
  have "py_split (glove_line token v) = split_acc token (concat (replicate 300 ('' '' @ v)))"
    using split_acc_word [OF assms(2), of "[]"] by (simp add: py_split_def glove_line_def)
  also have "\<dots> = token # replicate 300 v"
    using assms(3,4,1) by (rule split_acc_repeat)
  finally show ?thesis .
qed

lemma decimal_examples: "decimal ''0.1'' \<noteq> None" "decimal ''0.4'' \<noteq> None"
  by code_simp+

lemma no_space_examples:
  "\<forall>c\<in>set ''cat''. \<not> is_space c" "\<forall>c\<in>set ''dog''. \<not> is_space c"
  "\<forall>c\<in>set ''0.1''. \<not> is_space c" "\<forall>c\<in>set ''0.4''. \<not> is_space c"
  by code_simp+

lemma cat_dog_lines:
  "py_split (glove_line ''cat'' ''0.1'') = ''cat'' # replicate 300 ''0.1''"
  "py_split (glove_line ''dog'' ''0.4'') = ''dog'' # replicate 300 ''0.4''"
  by (simp_all add: py_split_glove_line no_space_examples)


lemma forward_index_error:
  assumes "tokenize (str_lower s) = [w]" and "map_of (word2idx emb) w = Some i"
    and "length (weight emb) \<le> i"
  shows "forward tokenize of_len emb (Str s) mean_sequence = Inl IndexError"
  using assms
  by (simp add: forward_def as_list_def py_max_single indicies_of_def embedding_lookup_def
        dict_get_def Let_def)

lemma the_cat_dog_retained:
  "retained_lines [''the 0.1'', glove_line ''cat'' ''0.1'', glove_line ''dog'' ''0.4'']
     = [(2, ''cat'', replicate 300 ''0.1''), (3, ''dog'', replicate 300 ''0.4'')]"
proof -
  have "py_split ''the 0.1'' = [''the'', ''0.1'']" by code_simp
  then show ?thesis by (simp add: retained_lines_def cat_dog_lines)
qed

lemma decimal_values: "decimal ''0.1'' = Some (1 / 10)" "decimal ''0.4'' = Some (2 / 5)"
  by code_simp+

text \<open>
  C2: a file whose first line has one value instead of 300 and whose next two lines
  are kept.  The tokens get the numbers of their lines, 2 and 3, while their vectors are
  rows 1 and 2 of the three rows: row 2 is the vector of \<open>dog\<close> although index 2 is
  that of \<open>cat\<close>, index 1 has a row and no token, and the index of \<open>dog\<close> is no row
  of the matrix, so that embedding \<open>dog\<close> raises \<open>IndexError\<close>.
\<close>

theorem glove_index_is_line_number:
  "\<exists>emb. glove_init decimal
            [''the 0.1'', glove_line ''cat'' ''0.1'', glove_line ''dog'' ''0.4''] True = Inr emb
         \<and> num_embeddings emb = 3 \<and> length (vectors emb) = 3 \<and> weight emb = vectors emb
         \<and> map_of (word2idx emb) ''cat'' = Some 2
         \<and> vectors emb ! 1 = replicate 300 (1 / 10)
         \<and> vectors emb ! 2 = replicate 300 (2 / 5)
         \<and> map_of (word2idx emb) ''dog'' = Some 3
         \<and> forward py_split of_nat emb (Str ''dog'') False = Inl IndexError"
proof -
  let ?file = "[''the 0.1'', glove_line ''cat'' ''0.1'', glove_line ''dog'' ''0.4'']"
  let ?emb = "\<lparr>num_embeddings = Suc (length (retained_lines ?file)), embedding_dim = 300,
                word2idx = AList.update ''<unknown>'' 0 (insert_all (retained_lines ?file) []),
                vectors = replicate 300 0 # map (line_vector decimal) (retained_lines ?file),
                column_cache = [], use_column_cache = True,
                weight = replicate 300 0 # map (line_vector decimal) (retained_lines ?file)\<rparr>"
  have sp: "py_split ''the 0.1'' = [''the'', ''0.1'']" by code_simp
  have h1: "\<forall>l\<in>set ?file. py_split l \<noteq> []"
    by (simp add: cat_dog_lines sp)
  have "decimal s \<noteq> None"
    if "s \<in> set (replicate 300 ''0.1'') \<or> s \<in> set (replicate 300 ''0.4'')" for s
  proof -
    from that have "s = ''0.1'' \<or> s = ''0.4''"
      by (simp only: set_replicate_conv_if split: if_splits) blast
    then show ?thesis
      using decimal_examples by (elim disjE) (simp_all only: not_False_eq_True)
  qed
  then have h2: "\<forall>r\<in>set (retained_lines ?file). \<forall>s\<in>set (snd (snd r)). decimal s \<noteq> None"
    unfolding the_cat_dog_retained by (simp del: not_None_eq)
  have h3: "retained_lines ?file \<noteq> []"
    by (simp add: the_cat_dog_retained)
  have h4: "''<unknown>'' \<notin> set (map line_token (retained_lines ?file))"
    by (simp add: the_cat_dog_retained)
  have init: "glove_init decimal ?file True = Inr ?emb"
    using h1 h2 h3 h4 by (rule glove_init_loaded)
  have cat: "map_of (word2idx ?emb) ''cat'' = Some 2"
    by (simp add: the_cat_dog_retained insert_all_def)
  have dog: "map_of (word2idx ?emb) ''dog'' = Some 3"
    by (simp add: the_cat_dog_retained insert_all_def)
  have row1: "vectors ?emb ! 1 = replicate 300 (1 / 10)"
    by (simp add: the_cat_dog_retained line_vector_def decimal_values)
  have row2: "vectors ?emb ! 2 = replicate 300 (2 / 5)"
    by (simp add: the_cat_dog_retained line_vector_def decimal_values)
  have tok: "py_split (str_lower ''dog'') = [''dog'']" by code_simp
  have "forward py_split of_nat ?emb (Str ''dog'') False = Inl IndexError"
    using tok dog by (rule forward_index_error) (simp add: the_cat_dog_retained)
  moreover have "num_embeddings ?emb = 3" "length (vectors ?emb) = 3" "weight ?emb = vectors ?emb"
    by (simp_all add: the_cat_dog_retained)
  ultimately show ?thesis
    using init cat dog row1 row2 by (intro exI [of _ ?emb] conjI)
qed





















subsection \<open>The dynamic vocabulary\<close>

lemma grow_vocab_fold:
  "grow_vocab embedder sentences_words st = fold (grow_word embedder) (concat sentences_words) st"
  unfolding grow_vocab_def
  by (induction sentences_words arbitrary: st) simp_all

lemma grow_word_new:
  "map_of w2i w = None \<Longrightarrow>
   grow_word embedder w (w2i, vecs, calls)
     = (AList.update w (length w2i) w2i, vecs @ [embedder w], calls @ [w])"
  by (simp add: grow_word_def)

lemma grow_word_known:
  "map_of w2i w = Some k \<Longrightarrow> grow_word embedder w (w2i, vecs, calls) = (w2i, vecs, calls)"
  by (simp add: grow_word_def)

lemma set_update_subset: "set (AList.update k v al) \<subseteq> insert (k, v) (set al)"
  by (induction al) auto

lemma grow_words:
  "\<exists>new w2i'. fold (grow_word embedder) ws (w2i, vecs, calls)
               = (w2i', vecs @ map embedder new, calls @ new)
     \<and> distinct new
     \<and> set new = {w \<in> set ws. map_of w2i w = None}
     \<and> length w2i' = length w2i + length new
     \<and> (\<forall>j<length new. map_of w2i' (new ! j) = Some (length w2i + j))
     \<and> (\<forall>w k. map_of w2i w = Some k \<longrightarrow> map_of w2i' w = Some k)
     \<and> (\<forall>p\<in>set w2i'. p \<in> set w2i \<or> snd p < length w2i + length new)"
proof (induction ws arbitrary: w2i vecs calls)
  case Nil
  show ?case by (intro exI [of _ "[]"] exI [of _ w2i]) simp
next
  case (Cons w ws)
  show ?case
  proof (cases "map_of w2i w")
    case None
    let ?w2i = "AList.update w (length w2i) w2i"
    from Cons.IH [of ?w2i "vecs @ [embedder w]" "calls @ [w]"]
    obtain new w2i' where
      run: "fold (grow_word embedder) ws (?w2i, vecs @ [embedder w], calls @ [w])
              = (w2i', (vecs @ [embedder w]) @ map embedder new, (calls @ [w]) @ new)"
      and dist: "distinct new"
      and new: "set new = {x \<in> set ws. map_of ?w2i x = None}"
      and len: "length w2i' = length ?w2i + length new"
      and idx: "\<forall>j<length new. map_of w2i' (new ! j) = Some (length ?w2i + j)"
      and keep: "\<forall>x k. map_of ?w2i x = Some k \<longrightarrow> map_of w2i' x = Some k"
      and keys: "\<forall>p\<in>set w2i'. p \<in> set ?w2i \<or> snd p < length ?w2i + length new"
      by (elim exE conjE)
    have l1: "length ?w2i = Suc (length w2i)"
      using None by (rule length_update_new)
    have notin: "w \<notin> set new"
      using new by (simp add: update_conv')
    have "fold (grow_word embedder) (w # ws) (w2i, vecs, calls)
            = (w2i', vecs @ map embedder (w # new), calls @ (w # new))"
      using run by (simp add: grow_word_new [OF None])
    moreover have "distinct (w # new)" using dist notin by simp
    moreover have "set (w # new) = {x \<in> set (w # ws). map_of w2i x = None}"
      using new None by (auto simp: update_conv' split: if_splits)
    moreover have "length w2i' = length w2i + length (w # new)"
      using len l1 by simp
    moreover have "\<forall>j<length (w # new). map_of w2i' ((w # new) ! j) = Some (length w2i + j)"
    proof (intro allI impI)
      fix j assume j: "j < length (w # new)"
      show "map_of w2i' ((w # new) ! j) = Some (length w2i + j)"
      proof (cases j)
        case 0
        have "map_of ?w2i w = Some (length w2i)" by (simp add: update_conv')
        with keep have "map_of w2i' w = Some (length w2i)" by (simp only:)
        with 0 show ?thesis by simp
      next
        case (Suc i)
        with j idx l1 show ?thesis by simp
      qed
    qed
    moreover have "\<forall>x k. map_of w2i x = Some k \<longrightarrow> map_of w2i' x = Some k"
    proof (intro allI impI)
      fix x k assume x: "map_of w2i x = Some k"
      with None have "x \<noteq> w" by auto
      with x have "map_of ?w2i x = Some k" by (simp add: update_conv')
      with keep show "map_of w2i' x = Some k" by (simp only:)
    qed
    moreover have "\<forall>p\<in>set w2i'. p \<in> set w2i \<or> snd p < length w2i + length (w # new)"
    proof
      fix p assume "p \<in> set w2i'"
      with keys have "p \<in> set ?w2i \<or> snd p < length ?w2i + length new" by (rule bspec)
      then show "p \<in> set w2i \<or> snd p < length w2i + length (w # new)"
        using set_update_subset [of w "length w2i" w2i] l1 by auto
    qed
    ultimately show ?thesis
      by (intro exI [of _ "w # new"] exI [of _ w2i'] conjI)
  next
    case (Some k)
    from Cons.IH [of w2i vecs calls]
    obtain new w2i' where
      run: "fold (grow_word embedder) ws (w2i, vecs, calls)
              = (w2i', vecs @ map embedder new, calls @ new)"
      and dist: "distinct new"
      and new: "set new = {x \<in> set ws. map_of w2i x = None}"
      and len: "length w2i' = length w2i + length new"
      and idx: "\<forall>j<length new. map_of w2i' (new ! j) = Some (length w2i + j)"
      and keep: "\<forall>x k. map_of w2i x = Some k \<longrightarrow> map_of w2i' x = Some k"
      and keys: "\<forall>p\<in>set w2i'. p \<in> set w2i \<or> snd p < length w2i + length new"
      by (elim exE conjE)
    have "fold (grow_word embedder) (w # ws) (w2i, vecs, calls)
            = (w2i', vecs @ map embedder new, calls @ new)"
      using run by (simp add: grow_word_known [OF Some])
    moreover have "set new = {x \<in> set (w # ws). map_of w2i x = None}"
      using new Some by auto
    ultimately show ?thesis
      using dist len idx keep keys by (intro exI [of _ new] exI [of _ w2i'] conjI)
  qed
qed




lemma grown_state:
  assumes inv: "laser_inv st"
    and run: "fold (grow_word embedder) ws (laser_word2idx st, laser_vectors st, [])
                = (w2i', vecs', calls)"
  shows "distinct calls
       \<and> set calls = {w \<in> set ws. map_of (laser_word2idx st) w = None}
       \<and> (\<forall>j<length calls.
             map_of w2i' (calls ! j) = Some (length (laser_word2idx st) + j))
       \<and> vecs' = laser_vectors st @ map embedder calls
       \<and> (\<forall>w k. map_of (laser_word2idx st) w = Some k \<longrightarrow> map_of w2i' w = Some k)
       \<and> (\<forall>w\<in>set ws. \<exists>k. map_of w2i' w = Some k
             \<and> lookup_vector w2i' vecs' w = Inr (Nd (reshape_flat (vecs' ! k)))
             \<and> vecs' ! k = (case map_of (laser_word2idx st) w of
                               None \<Rightarrow> embedder w | Some k0 \<Rightarrow> laser_vectors st ! k0))
       \<and> laser_inv \<lparr>laser_num_embeddings = length w2i', laser_word2idx = w2i',
                      laser_vectors = vecs'\<rparr>"
proof -
  let ?w2i = "laser_word2idx st" and ?vecs = "laser_vectors st"
  from grow_words [of embedder ws ?w2i ?vecs "[]"]
  obtain new w2x where
    r: "fold (grow_word embedder) ws (?w2i, ?vecs, []) = (w2x, ?vecs @ map embedder new, [] @ new)"
    and dist: "distinct new"
    and new: "set new = {w \<in> set ws. map_of ?w2i w = None}"
    and len0: "length w2x = length ?w2i + length new"
    and idx0: "\<forall>j<length new. map_of w2x (new ! j) = Some (length ?w2i + j)"
    and keep0: "\<forall>w k. map_of ?w2i w = Some k \<longrightarrow> map_of w2x w = Some k"
    and pairs0: "\<forall>p\<in>set w2x. p \<in> set ?w2i \<or> snd p < length ?w2i + length new"
    by (elim exE conjE)
  from r run have w2x: "w2x = w2i'" and vecs': "vecs' = ?vecs @ map embedder new"
    and calls: "calls = new"
    by simp_all
  note len = len0 [unfolded w2x] and idx = idx0 [unfolded w2x] and keep = keep0 [unfolded w2x]
    and pairs = pairs0 [unfolded w2x]
  have eq: "length ?vecs = length ?w2i"
    using inv by (simp add: laser_inv_def)
  have old: "k < length ?vecs" if "(w, k) \<in> set ?w2i" for w k
    using inv that by (auto simp: laser_inv_def list_all_iff)
  have look: "\<exists>k. map_of w2i' w = Some k
             \<and> lookup_vector w2i' vecs' w = Inr (Nd (reshape_flat (vecs' ! k)))
             \<and> vecs' ! k = (case map_of ?w2i w of
                               None \<Rightarrow> embedder w | Some k0 \<Rightarrow> ?vecs ! k0)"
    if w: "w \<in> set ws" for w
  proof (cases "map_of ?w2i w")
    case None
    with w new have "w \<in> set new" by simp
    then obtain j where j: "j < length new" and wj: "new ! j = w"
      by (auto simp: in_set_conv_nth)
    from idx j wj have k: "map_of w2i' w = Some (length ?w2i + j)" by auto
    have v: "vecs' ! (length ?w2i + j) = embedder w"
      using j wj by (simp add: vecs' eq [symmetric] nth_append)
    have "length ?w2i + j < length vecs'"
      using j by (simp add: vecs' eq)
    then have "lookup_vector w2i' vecs' w
                 = Inr (Nd (reshape_flat (vecs' ! (length ?w2i + j))))"
      using k by (simp add: lookup_vector_def dict_get_def)
    with k v None show ?thesis by simp
  next
    case (Some k0)
    then have "(w, k0) \<in> set ?w2i" by (rule map_of_SomeD)
    then have k0: "k0 < length ?vecs" by (rule old)
    from keep Some have k: "map_of w2i' w = Some k0" by simp
    have v: "vecs' ! k0 = ?vecs ! k0"
      using k0 by (simp add: vecs' nth_append)
    have "k0 < length vecs'" using k0 by (simp add: vecs')
    then have "lookup_vector w2i' vecs' w = Inr (Nd (reshape_flat (vecs' ! k0)))"
      using k by (simp add: lookup_vector_def dict_get_def)
    with k v Some show ?thesis by simp
  qed
  have inv': "laser_inv \<lparr>laser_num_embeddings = length w2i', laser_word2idx = w2i',
                      laser_vectors = vecs'\<rparr>"
  proof -
    have "snd p < length vecs'" if "p \<in> set w2i'" for p
    proof -
      from pairs that have "p \<in> set ?w2i \<or> snd p < length ?w2i + length new" by (rule bspec)
      then show ?thesis
      proof
        assume "p \<in> set ?w2i"
        then have "snd p < length ?vecs" using old [of "fst p" "snd p"] by simp
        then show ?thesis by (simp add: vecs')
      next
        assume "snd p < length ?w2i + length new"
        then show ?thesis by (simp add: vecs' eq)
      qed
    qed
    then show ?thesis
      by (auto simp: laser_inv_def list_all_iff vecs' eq len)
  qed
  show ?thesis
    using dist new idx keep look inv' unfolding calls vecs'
    by (intro conjI ballI) (simp_all only: simp_thms)
qed



subsection \<open>The shape of the tensor of \<open>LaserEmbedding.forward\<close>\<close>

lemma collect_map:
  assumes "\<forall>x\<in>set xs. \<exists>y. f x = Inr y \<and> P y"
  shows "\<exists>ys. collect (map f xs) = Inr ys \<and> length ys = length xs \<and> (\<forall>y\<in>set ys. P y)"
  using assms
proof (induction xs)
  case Nil
  then show ?case by simp
next
  case (Cons x xs)
  then obtain y where y: "f x = Inr y" "P y" by auto
  from Cons obtain ys where ys: "collect (map f xs) = Inr ys" "length ys = length xs"
    "\<forall>y\<in>set ys. P y" by auto
  show ?case
    by (rule exI [of _ "y # ys"]) (simp add: y ys)
qed

lemma torch_tensor_list:
  assumes "we \<noteq> []" and "\<forall>v\<in>set we. \<exists>t. torch_tensor v = Inr t \<and> nd_shape t = sh"
  shows "\<exists>t. torch_tensor (PyList we) = Inr t \<and> nd_shape t = length we # sh"
proof -
  from collect_map [where P = "\<lambda>t. nd_shape t = sh", OF assms(2)]
  obtain ts where ts: "collect (map torch_tensor we) = Inr ts" "length ts = length we"
    "\<forall>t\<in>set ts. nd_shape t = sh"
    by (elim exE conjE)
  from assms(1) ts(2) obtain t rest where tr: "ts = t # rest" by (cases ts) auto
  from ts(3) have "nd_shape t = sh" and "list_all (\<lambda>u. nd_shape u = nd_shape t) rest"
    by (simp_all add: tr list_all_iff)
  then show ?thesis
    using ts(1,2) by (simp add: tr)
qed

lemma laser_tensor_batch:
  assumes "2 \<le> length we"
    and "\<forall>v\<in>set we. \<exists>t. torch_tensor v = Inr t \<and> nd_shape t = [1, laser_dim]"
  shows "\<exists>t. laser_tensor we = Inr t \<and> nd_shape t = [1, length we, laser_dim]"
proof -
  from assms(1) have "we \<noteq> []" by auto
  from torch_tensor_list [OF this assms(2)]
  obtain t where t: "torch_tensor (PyList we) = Inr t" "nd_shape t = [length we, 1, laser_dim]"
    by (elim exE conjE)
  have "nd_shape (squeeze t) = [length we, laser_dim]"
    using assms(1) by (simp add: squeeze_def t(2) laser_dim_def)
  then show ?thesis
    by (simp add: laser_tensor_def t(1) Let_def unsqueeze0_def del: torch_tensor.simps)
qed

lemma laser_forward_value:
  assumes "py_max (map length (map tokenize (map str_lower (as_list ss)))) = Inr m"
    and "fold (grow_word embedder) (batch_tokens tokenize ss)
           (laser_word2idx st, laser_vectors st, []) = (w2i, vecs, calls)"
  shows "fst (laser_forward tokenize embedder st ss False)
           = (case collect (map (sentence_list w2i vecs m)
                              (map tokenize (map str_lower (as_list ss)))) of
                Inl e \<Rightarrow> Inl e
              | Inr we \<Rightarrow>
                  (case laser_tensor we of
                     Inl e \<Rightarrow> Inl e
                   | Inr t \<Rightarrow> Inr (t, map length (map tokenize (map str_lower (as_list ss))))))"
proof -
  have "grow_vocab embedder (map tokenize (map str_lower (as_list ss)))
          (laser_word2idx st, laser_vectors st, []) = (w2i, vecs, calls)"
    using assms(2) by (simp add: grow_vocab_fold batch_tokens_def)
  then show ?thesis
    using assms(1) by (simp add: laser_forward_def Let_def o_def split: sum.splits)
qed

lemma sentence_list_single:
  assumes "lookup_vector w2i vecs w = Inr (Nd (reshape_flat v))"
  shows "sentence_list w2i vecs 1 [w] = Inr (PyList [Nd (reshape_flat v)])"
  using assms by (simp add: sentence_list_def)


text \<open>
  C9: without \<open>mean_sequence\<close>, for a batch of at least two sentences of one token
  each, on a vocabulary that satisfies its invariant and whose stored vectors have 1024
  numbers, with an embedder that returns 1024 numbers, \<open>forward\<close> returns a tensor of
  shape (1, batch size, 1024) and the lengths 1.
\<close>

theorem laser_single_token_shape:
  assumes "2 \<le> length (as_list ss)"
    and "\<forall>s\<in>set (as_list ss). length (tokenize (str_lower s)) = 1"
    and "laser_inv st" and "stored_dim st"
    and "\<forall>text. length (nd_data (embedder text)) = laser_dim"
  shows "\<exists>t. fst (laser_forward tokenize embedder st ss False)
               = Inr (t, replicate (length (as_list ss)) 1)
            \<and> nd_shape t = [1, length (as_list ss), laser_dim]"
proof -
  let ?sws = "map tokenize (map str_lower (as_list ss))"
  from assms(1) have ne: "as_list ss \<noteq> []" by auto
  have lens: "map length ?sws = replicate (length (as_list ss)) 1"
    using assms(2) by (auto simp: map_replicate_const [symmetric] simp del: map_replicate_const
        intro!: nth_equalityI)
  have "set (map length ?sws) = {1}"
    unfolding lens using ne by simp
  then have m: "py_max (map length ?sws) = Inr 1"
    using py_max_Max [of "map length ?sws"] ne by simp
  obtain w2i vecs calls where
    run: "fold (grow_word embedder) (batch_tokens tokenize ss)
            (laser_word2idx st, laser_vectors st, []) = (w2i, vecs, calls)"
    by (cases "fold (grow_word embedder) (batch_tokens tokenize ss)
            (laser_word2idx st, laser_vectors st, [])")
  note grown = grown_state [OF assms(3) run]
  from grown have look: "\<forall>w\<in>set (batch_tokens tokenize ss). \<exists>k. map_of w2i w = Some k
             \<and> lookup_vector w2i vecs w = Inr (Nd (reshape_flat (vecs ! k)))
             \<and> vecs ! k = (case map_of (laser_word2idx st) w of
                               None \<Rightarrow> embedder w | Some k0 \<Rightarrow> laser_vectors st ! k0)"
    by (elim conjE)
  have old: "length (nd_data (laser_vectors st ! k0)) = laser_dim"
    if "map_of (laser_word2idx st) w = Some k0" for w k0
  proof -
    from that have "(w, k0) \<in> set (laser_word2idx st)" by (rule map_of_SomeD)
    with assms(3) have "k0 < length (laser_vectors st)"
      by (auto simp: laser_inv_def list_all_iff)
    with assms(4) show ?thesis by (simp add: stored_dim_def list_all_length)
  qed
  have sent: "\<exists>v. sentence_list w2i vecs 1 sw = Inr v
               \<and> (\<exists>t. torch_tensor v = Inr t \<and> nd_shape t = [1, laser_dim])"
    if sw: "sw \<in> set ?sws" for sw
  proof -
    from sw assms(2) have "length sw = 1" by auto
    then obtain w where w: "sw = [w]" by (cases sw) auto
    from sw obtain x where x: "x \<in> set (as_list ss)" "tokenize (str_lower x) = [w]"
      unfolding w by auto
    then have "w \<in> set (tokenize (str_lower x))" by simp
    with x(1) have "w \<in> set (batch_tokens tokenize ss)"
      unfolding batch_tokens_def by auto
    with look obtain k where
      lk: "lookup_vector w2i vecs w = Inr (Nd (reshape_flat (vecs ! k)))"
      and vk: "vecs ! k = (case map_of (laser_word2idx st) w of
                               None \<Rightarrow> embedder w | Some k0 \<Rightarrow> laser_vectors st ! k0)"
      by blast
    have dim: "length (nd_data (vecs ! k)) = laser_dim"
      unfolding vk using assms(5) old by (cases "map_of (laser_word2idx st) w") simp_all
    have "sentence_list w2i vecs 1 sw = Inr (PyList [Nd (reshape_flat (vecs ! k))])"
      unfolding w using lk by (rule sentence_list_single)
    moreover have "torch_tensor (PyList [Nd (reshape_flat (vecs ! k))])
                     = Inr \<lparr>nd_shape = [1, laser_dim], nd_data = nd_data (vecs ! k)\<rparr>"
      by (simp add: reshape_flat_def dim)
    ultimately show ?thesis by simp
  qed
  from collect_map [where f = "sentence_list w2i vecs 1" and xs = ?sws
      and P = "\<lambda>v. \<exists>t. torch_tensor v = Inr t \<and> nd_shape t = [1, laser_dim]"] sent
  obtain we where we: "collect (map (sentence_list w2i vecs 1) ?sws) = Inr we"
    and lwe: "length we = length ?sws"
    and twe: "\<forall>v\<in>set we. \<exists>t. torch_tensor v = Inr t \<and> nd_shape t = [1, laser_dim]"
    by blast
  from lwe assms(1) have "2 \<le> length we" by simp
  from laser_tensor_batch [OF this twe]
  obtain t where t: "laser_tensor we = Inr t" "nd_shape t = [1, length we, laser_dim]"
    by (elim exE conjE)
  have "fst (laser_forward tokenize embedder st ss False) = Inr (t, map length ?sws)"
    unfolding laser_forward_value [OF m run] by (simp only: we t(1) sum.case)
  with t(2) lwe lens show ?thesis by simp
qed

theorem laser_single_token_shape_witness:
  "\<exists>t. fst (laser_forward py_split length_embedder laser_init (StrList [''a'', ''bb'']) False)
          = Inr (t, [1, 1])
       \<and> nd_shape t = [1, 2, 1024]"
proof -
  let ?ss = "StrList [''a'', ''bb'']"
  have h1: "2 \<le> length (as_list ?ss)" by code_simp
  have h2: "\<forall>s\<in>set (as_list ?ss). length (py_split (str_lower s)) = 1" by code_simp
  have h3: "laser_inv (laser_init :: rat laser)"
    by (simp add: laser_inv_def laser_init_def)
  have h4: "stored_dim (laser_init :: rat laser)"
    by (simp add: stored_dim_def laser_init_def)
  have h5: "\<forall>text. length (nd_data (length_embedder text)) = laser_dim"
    by (simp add: length_embedder_def)
  have n: "length (as_list ?ss) = 2" by code_simp
  from laser_single_token_shape [OF h1 h2 h3 h4 h5]
  show ?thesis unfolding n by (simp add: laser_dim_def numeral_2_eq_2)
qed

subsection \<open>The column cache\<close>

lemma assign_lengths_zero:
  assumes "length cached_lengths = length cached_emb"
  shows "assign_lengths (zero_len_row max_len) (min (length cached_emb) max_len)
           (map (\<lambda>n. min n max_col) cached_lengths)
         = Inr (hit_len max_len max_col cached_emb cached_lengths)"
  using assms by (simp add: assign_lengths_def zero_len_row_def hit_len_def Let_def min_def)

lemma hit_emb_nth:
  assumes "j < max_len" and "k < max_col"
  shows "hit_emb max_len max_col d cached_emb ! j ! k
           = (if j < min (length cached_emb) max_len \<and> k < min (size1 cached_emb) max_col
              then cached_emb ! j ! k else replicate d 0)"
  using assms by (simp add: hit_emb_def assign_block_def zero_emb_row_def)

lemma hit_emb_shape:
  "length (hit_emb max_len max_col d cached_emb) = max_len"
  "j < max_len \<Longrightarrow> length (hit_emb max_len max_col d cached_emb ! j) = max_col"
  by (simp_all add: hit_emb_def assign_block_def zero_emb_row_def)

lemma hit_len_shape:
  "length (hit_len max_len max_col cached_emb cached_lengths)
     = min (length cached_lengths) (min (length cached_emb) max_len)
       + (max_len - min (length cached_emb) max_len)"
  by (simp add: hit_len_def)

lemma columns_loop_hit:
  assumes "map_of cache db = Some (cached_emb, cached_lengths)"
    and "length cached_lengths = length cached_emb"
    and "embeddings ! i = zero_emb_row max_len max_col (embedding_dim emb)"
    and "col_name_lengths ! i = zero_len_row max_len"
  shows "columns_loop tokenize of_len emb max_len max_col i (db # rest) embeddings
           col_name_lengths cache calls
         = columns_loop tokenize of_len emb max_len max_col (Suc i) rest
             (embeddings[i := hit_emb max_len max_col (embedding_dim emb) cached_emb])
             (col_name_lengths[i := hit_len max_len max_col cached_emb cached_lengths])
             cache calls"
  using assms(1) assign_lengths_zero [OF assms(2), of max_len max_col]
  by (simp add: assms(3,4) hit_emb_def Let_def)


lemma columns_loop_cache_mono:
  assumes "columns_loop tokenize of_len emb max_len max_col i dbs embeddings col_name_lengths
             cache calls = (res, cache', calls')"
    and "map_of cache key = Some e"
  shows "map_of cache' key = Some e"
  using assms
proof (induction dbs arbitrary: i embeddings col_name_lengths cache calls)
  case Nil
  then show ?case by simp
next
  case (Cons db rest)
  show ?case
  proof (cases "map_of cache db")
    case (Some entry)
    obtain ce cl where entry: "entry = (ce, cl)" by (cases entry)
    show ?thesis
    proof (cases "assign_lengths (col_name_lengths ! i) (min (length ce) max_len)
                    (map (\<lambda>n. min n max_col) cl)")
      case (Inl err)
      with Cons.prems Some entry show ?thesis by (simp add: Let_def)
    next
      case (Inr c_i)
      with Cons.prems(1) Some entry
      have "columns_loop tokenize of_len emb max_len max_col (Suc i) rest
              (embeddings[i := assign_block (embeddings ! i) (min (length ce) max_len)
                 (min (size1 ce) max_col) ce])
              (col_name_lengths[i := c_i]) cache calls = (res, cache', calls')"
        by (simp add: Let_def)
      then show ?thesis using Cons.prems(2) by (rule Cons.IH)
    qed
  next
    case None
    obtain r calls1 where
      db: "embed_db tokenize of_len emb 0 db (embeddings ! i) (col_name_lengths ! i) calls
             = (r, calls1)"
      by (cases "embed_db tokenize of_len emb 0 db (embeddings ! i) (col_name_lengths ! i) calls")
    show ?thesis
    proof (cases r)
      case (Inl err)
      with Cons.prems None db show ?thesis by simp
    next
      case (Inr rows)
      obtain e_i c_i where rows: "rows = (e_i, c_i)" by (cases rows)
      let ?cache = "if use_column_cache emb then AList.update db (e_i, c_i) cache else cache"
      from Cons.prems(1) None db Inr rows
      have run: "columns_loop tokenize of_len emb max_len max_col (Suc i) rest
              (embeddings[i := e_i]) (col_name_lengths[i := c_i]) ?cache calls1
            = (res, cache', calls')"
        by simp
      from Cons.prems(2) None have "key \<noteq> db" by auto
      with Cons.prems(2) have "map_of ?cache key = Some e"
        by (simp add: update_conv')
      with run show ?thesis by (rule Cons.IH)
    qed
  qed
qed

lemma columns_loop_frame:
  assumes "columns_loop tokenize of_len emb max_len max_col i dbs embeddings col_name_lengths
             cache calls = (Inr (embeddings', col_name_lengths'), cache', calls')"
  shows "length embeddings' = length embeddings
       \<and> length col_name_lengths' = length col_name_lengths
       \<and> (\<forall>r<i. embeddings' ! r = embeddings ! r \<and> col_name_lengths' ! r = col_name_lengths ! r)"
  using assms
proof (induction dbs arbitrary: i embeddings col_name_lengths cache calls)
  case Nil
  then show ?case by simp
next
  case (Cons db rest)
  show ?case
  proof (cases "map_of cache db")
    case (Some entry)
    obtain ce cl where entry: "entry = (ce, cl)" by (cases entry)
    show ?thesis
    proof (cases "assign_lengths (col_name_lengths ! i) (min (length ce) max_len)
                    (map (\<lambda>n. min n max_col) cl)")
      case (Inl err)
      with Cons.prems Some entry show ?thesis by (simp add: Let_def)
    next
      case (Inr c_i)
      with Cons.prems(1) Some entry
      have "columns_loop tokenize of_len emb max_len max_col (Suc i) rest
              (embeddings[i := assign_block (embeddings ! i) (min (length ce) max_len)
                 (min (size1 ce) max_col) ce])
              (col_name_lengths[i := c_i]) cache calls
            = (Inr (embeddings', col_name_lengths'), cache', calls')"
        by (simp add: Let_def)
      from Cons.IH [OF this] show ?thesis by simp
    qed
  next
    case None
    obtain r calls1 where
      db: "embed_db tokenize of_len emb 0 db (embeddings ! i) (col_name_lengths ! i) calls
             = (r, calls1)"
      by (cases "embed_db tokenize of_len emb 0 db (embeddings ! i) (col_name_lengths ! i) calls")
    show ?thesis
    proof (cases r)
      case (Inl err)
      with Cons.prems None db show ?thesis by simp
    next
      case (Inr rows)
      obtain e_i c_i where rows: "rows = (e_i, c_i)" by (cases rows)
      let ?cache = "if use_column_cache emb then AList.update db (e_i, c_i) cache else cache"
      from Cons.prems(1) None db Inr rows
      have "columns_loop tokenize of_len emb max_len max_col (Suc i) rest
              (embeddings[i := e_i]) (col_name_lengths[i := c_i]) ?cache calls1
            = (Inr (embeddings', col_name_lengths'), cache', calls')"
        by simp
      from Cons.IH [OF this] show ?thesis by simp
    qed
  qed
qed

lemma columns_loop_hit_row:
  assumes "columns_loop tokenize of_len emb max_len max_col i dbs embeddings col_name_lengths
             cache calls = (Inr (embeddings', col_name_lengths'), cache', calls')"
    and "\<forall>r. i \<le> r \<longrightarrow> r < length embeddings \<longrightarrow>
           embeddings ! r = zero_emb_row max_len max_col (embedding_dim emb)
           \<and> col_name_lengths ! r = zero_len_row max_len"
    and "length col_name_lengths = length embeddings"
    and "i + length dbs \<le> length embeddings"
    and "n < length dbs"
    and "map_of cache (dbs ! n) = Some (ce, cl)"
    and "length cl = length ce"
  shows "embeddings' ! (i + n) = hit_emb max_len max_col (embedding_dim emb) ce
       \<and> col_name_lengths' ! (i + n) = hit_len max_len max_col ce cl"
  using assms(1-6)
proof (induction dbs arbitrary: i embeddings col_name_lengths cache calls n)
  case Nil
  then show ?case by simp
next
  case (Cons db rest)
  from Cons.prems(4) have i: "i < length embeddings" by simp
  show ?case
  proof (cases n)
    case 0
    with Cons.prems(6) have hit: "map_of cache db = Some (ce, cl)" by simp
    from Cons.prems(2) i
    have z: "embeddings ! i = zero_emb_row max_len max_col (embedding_dim emb)"
      "col_name_lengths ! i = zero_len_row max_len"
      by simp_all
    from Cons.prems(1)
    have "columns_loop tokenize of_len emb max_len max_col (Suc i) rest
             (embeddings[i := hit_emb max_len max_col (embedding_dim emb) ce])
             (col_name_lengths[i := hit_len max_len max_col ce cl]) cache calls
          = (Inr (embeddings', col_name_lengths'), cache', calls')"
      unfolding columns_loop_hit [OF hit assms(7) z] .
    from columns_loop_frame [OF this] i Cons.prems(3)
    show ?thesis unfolding 0 by simp
  next
    case (Suc m)
    with Cons.prems(5) have m: "m < length rest" by simp
    from Suc Cons.prems(6) have key: "map_of cache (rest ! m) = Some (ce, cl)" by simp
    have step: "\<exists>e_i c_i cache1 calls1.
        columns_loop tokenize of_len emb max_len max_col (Suc i) rest
          (embeddings[i := e_i]) (col_name_lengths[i := c_i]) cache1 calls1
        = (Inr (embeddings', col_name_lengths'), cache', calls')
        \<and> map_of cache1 (rest ! m) = Some (ce, cl)"
    proof (cases "map_of cache db")
      case (Some entry)
      obtain ce0 cl0 where entry: "entry = (ce0, cl0)" by (cases entry)
      show ?thesis
      proof (cases "assign_lengths (col_name_lengths ! i) (min (length ce0) max_len)
                      (map (\<lambda>n. min n max_col) cl0)")
        case (Inl err)
        with Cons.prems(1) Some entry show ?thesis by (simp add: Let_def)
      next
        case (Inr c_i)
        with Cons.prems(1) Some entry key show ?thesis
          by (intro exI [of _ "assign_block (embeddings ! i) (min (length ce0) max_len)
                 (min (size1 ce0) max_col) ce0"] exI [of _ c_i] exI [of _ cache] exI [of _ calls])
            (simp add: Let_def)
      qed
    next
      case None
      obtain r calls1 where
        db: "embed_db tokenize of_len emb 0 db (embeddings ! i) (col_name_lengths ! i) calls
               = (r, calls1)"
        by (cases "embed_db tokenize of_len emb 0 db (embeddings ! i) (col_name_lengths ! i) calls")
      show ?thesis
      proof (cases r)
        case (Inl err)
        with Cons.prems(1) None db show ?thesis by simp
      next
        case (Inr rows)
        obtain e_i c_i where rows: "rows = (e_i, c_i)" by (cases rows)
        let ?cache = "if use_column_cache emb then AList.update db (e_i, c_i) cache else cache"
        from key None have "rest ! m \<noteq> db" by auto
        with key have "map_of ?cache (rest ! m) = Some (ce, cl)"
          by (simp add: update_conv')
        with Cons.prems(1) None db Inr rows show ?thesis
          by (intro exI [of _ e_i] exI [of _ c_i] exI [of _ ?cache] exI [of _ calls1]) simp
      qed
    qed
    then obtain e_i c_i cache1 calls1 where
      run: "columns_loop tokenize of_len emb max_len max_col (Suc i) rest
          (embeddings[i := e_i]) (col_name_lengths[i := c_i]) cache1 calls1
        = (Inr (embeddings', col_name_lengths'), cache', calls')"
      and key1: "map_of cache1 (rest ! m) = Some (ce, cl)"
      by (elim exE conjE)
    have zeros: "\<forall>r. Suc i \<le> r \<longrightarrow> r < length (embeddings[i := e_i]) \<longrightarrow>
           embeddings[i := e_i] ! r = zero_emb_row max_len max_col (embedding_dim emb)
           \<and> col_name_lengths[i := c_i] ! r = zero_len_row max_len"
      using Cons.prems(2) by simp
    have "embeddings' ! (Suc i + m) = hit_emb max_len max_col (embedding_dim emb) ce
       \<and> col_name_lengths' ! (Suc i + m) = hit_len max_len max_col ce cl"
      using run zeros _ _ m key1
    proof (rule Cons.IH)
      show "length (col_name_lengths[i := c_i]) = length (embeddings[i := e_i])"
        using Cons.prems(3) by simp
      show "Suc i + length rest \<le> length (embeddings[i := e_i])"
        using Cons.prems(4) by simp
    qed
    then show ?thesis unfolding Suc by simp
  qed
qed

lemma columns_loop_all_hits:
  assumes "\<forall>n<length dbs. \<exists>ce cl. map_of cache (dbs ! n) = Some (ce, cl)
             \<and> length cl = length ce
             \<and> embeddings' ! (i + n) = hit_emb max_len max_col (embedding_dim emb) ce
             \<and> col_name_lengths' ! (i + n) = hit_len max_len max_col ce cl"
    and "\<forall>r. i \<le> r \<longrightarrow> r < length embeddings \<longrightarrow>
           embeddings ! r = zero_emb_row max_len max_col (embedding_dim emb)
           \<and> col_name_lengths ! r = zero_len_row max_len"
    and "length col_name_lengths = length embeddings"
    and "length embeddings' = length embeddings"
    and "length col_name_lengths' = length embeddings"
    and "i + length dbs = length embeddings"
    and "\<forall>r<i. embeddings' ! r = embeddings ! r \<and> col_name_lengths' ! r = col_name_lengths ! r"
  shows "columns_loop tokenize of_len emb max_len max_col i dbs embeddings col_name_lengths
           cache calls = (Inr (embeddings', col_name_lengths'), cache, calls)"
  using assms
proof (induction dbs arbitrary: i embeddings col_name_lengths)
  case Nil
  then have "embeddings' = embeddings" and "col_name_lengths' = col_name_lengths"
    by (auto intro!: nth_equalityI)
  then show ?case by simp
next
  case (Cons db rest)
  from Cons.prems(6) have i: "i < length embeddings" by simp
  from Cons.prems(1) [rule_format, of 0]
  obtain ce cl where hit: "map_of cache db = Some (ce, cl)" and len: "length cl = length ce"
    and e: "embeddings' ! i = hit_emb max_len max_col (embedding_dim emb) ce"
    and c: "col_name_lengths' ! i = hit_len max_len max_col ce cl"
    by auto
  from Cons.prems(2) i
  have z: "embeddings ! i = zero_emb_row max_len max_col (embedding_dim emb)"
    "col_name_lengths ! i = zero_len_row max_len"
    by simp_all
  let ?E = "embeddings[i := hit_emb max_len max_col (embedding_dim emb) ce]"
  let ?C = "col_name_lengths[i := hit_len max_len max_col ce cl]"
  have "columns_loop tokenize of_len emb max_len max_col (Suc i) rest ?E ?C cache calls
          = (Inr (embeddings', col_name_lengths'), cache, calls)"
  proof (rule Cons.IH)
    show "\<forall>n<length rest. \<exists>ce cl. map_of cache (rest ! n) = Some (ce, cl)
             \<and> length cl = length ce
             \<and> embeddings' ! (Suc i + n) = hit_emb max_len max_col (embedding_dim emb) ce
             \<and> col_name_lengths' ! (Suc i + n) = hit_len max_len max_col ce cl"
    proof (intro allI impI)
      fix n assume "n < length rest"
      then have "Suc n < length (db # rest)" by simp
      from Cons.prems(1) [rule_format, OF this]
      show "\<exists>ce cl. map_of cache (rest ! n) = Some (ce, cl)
             \<and> length cl = length ce
             \<and> embeddings' ! (Suc i + n) = hit_emb max_len max_col (embedding_dim emb) ce
             \<and> col_name_lengths' ! (Suc i + n) = hit_len max_len max_col ce cl"
        by simp
    qed
    show "\<forall>r. Suc i \<le> r \<longrightarrow> r < length ?E \<longrightarrow>
           ?E ! r = zero_emb_row max_len max_col (embedding_dim emb)
           \<and> ?C ! r = zero_len_row max_len"
      using Cons.prems(2) by simp
    show "length ?C = length ?E" using Cons.prems(3) by simp
    show "length embeddings' = length ?E" using Cons.prems(4) by simp
    show "length col_name_lengths' = length ?E" using Cons.prems(5) by simp
    show "Suc i + length rest = length ?E" using Cons.prems(6) by simp
    show "\<forall>r<Suc i. embeddings' ! r = ?E ! r \<and> col_name_lengths' ! r = ?C ! r"
    proof (intro allI impI)
      fix r assume "r < Suc i"
      then consider "r < i" | "r = i" by linarith
      then show "embeddings' ! r = ?E ! r \<and> col_name_lengths' ! r = ?C ! r"
      proof cases
        case 1
        with Cons.prems(7) show ?thesis by simp
      next
        case 2
        with e c i Cons.prems(3) show ?thesis by simp
      qed
    qed
  qed
  then show ?case
    unfolding columns_loop_hit [OF hit len z] .
qed

lemma max_each_ok:
  "\<forall>xs\<in>set xss. xs \<noteq> [] \<Longrightarrow> max_each xss = Inr (map (\<lambda>xs. Max (set xs)) xss)"
  by (induction xss) (simp_all add: py_max_Max)

lemma max_each_nonempty:
  "max_each xss = Inr ms \<Longrightarrow> \<forall>xs\<in>set xss. xs \<noteq> []"
  by (induction xss arbitrary: ms) (auto simp: py_max_def split: sum.splits list.splits)

lemma Max_of_maxes:
  assumes "xss \<noteq> []" and "\<forall>xs\<in>set xss. xs \<noteq> []"
  shows "Max (set (map (\<lambda>xs. Max (set xs)) xss)) = Max (set (concat xss))"
  using assms
proof (induction xss)
  case Nil
  then show ?case by simp
next
  case (Cons xs xss)
  show ?case
  proof (cases "xss = []")
    case True
    then show ?thesis by simp
  next
    case False
    with Cons have IH: "Max (set (map (\<lambda>xs. Max (set xs)) xss)) = Max (set (concat xss))"
      by simp
    from False Cons.prems(2) have ne: "set (concat xss) \<noteq> {}"
      by (cases xss) auto
    from Cons.prems(2) have xs: "set xs \<noteq> {}" by simp
    have "Max (set (map (\<lambda>xs. Max (set xs)) (xs # xss)))
            = max (Max (set xs)) (Max (set (map (\<lambda>xs. Max (set xs)) xss)))"
      using False by (simp add: Max_insert)
    also have "\<dots> = max (Max (set xs)) (Max (set (concat xss)))"
      by (simp only: IH)
    also have "\<dots> = Max (set xs \<union> set (concat xss))"
      using xs ne by (simp add: Max_Un)
    finally show ?thesis by simp
  qed
qed

lemma get_columns_emb_unfold:
  assumes "columns \<noteq> []" and "\<forall>db\<in>set columns. db \<noteq> []"
  shows "get_columns_emb tokenize of_len emb columns =
           (case columns_loop tokenize of_len emb (max_columns columns)
                   (max_tokens tokenize columns) 0 (map (map join_space) columns)
                   (replicate (length columns)
                      (zero_emb_row (max_columns columns) (max_tokens tokenize columns)
                         (embedding_dim emb)))
                   (replicate (length columns) (zero_len_row (max_columns columns)))
                   (column_cache emb) [] of
              (Inl e, cache, calls) \<Rightarrow> (Inl e, emb\<lparr>column_cache := cache\<rparr>, calls)
            | (Inr (embeddings, col_name_lengths), cache, calls) \<Rightarrow>
                (Inr (embeddings, map length columns, col_name_lengths),
                 emb\<lparr>column_cache := cache\<rparr>, calls))"
proof -
  let ?counts = "map (map (\<lambda>column. length (tokenize (join_space column)))) columns"
  have m1: "py_max (map length columns) = Inr (max_columns columns)"
    using assms(1) by (simp add: py_max_Max max_columns_def)
  have counts: "map (map (\<lambda>column. length (tokenize column))) (map (map join_space) columns)
                  = ?counts"
    by (simp add: o_def)
  have ne: "\<forall>xs\<in>set ?counts. xs \<noteq> []" using assms(2) by auto
  have m2: "max_each ?counts = Inr (map (\<lambda>xs. Max (set xs)) ?counts)"
    using ne by (rule max_each_ok)
  have "?counts \<noteq> []" using assms(1) by simp
  then have "Max (set (map (\<lambda>xs. Max (set xs)) ?counts)) = Max (set (concat ?counts))"
    using ne by (rule Max_of_maxes)
  moreover have "py_max (map (\<lambda>xs. Max (set xs)) ?counts)
                   = Inr (Max (set (map (\<lambda>xs. Max (set xs)) ?counts)))"
    using assms(1) by (intro py_max_Max) simp
  ultimately have m3: "py_max (map (\<lambda>xs. Max (set xs)) ?counts)
                         = Inr (max_tokens tokenize columns)"
    by (simp add: max_tokens_def)
  show ?thesis
    unfolding get_columns_emb_def Let_def m1 counts m2 m3 sum.case
    by (simp add: zero_emb_row_def zero_len_row_def)
qed

lemma get_columns_emb_Inr:
  assumes "get_columns_emb tokenize of_len emb columns = (Inr out, emb', calls)"
  shows "columns \<noteq> [] \<and> (\<forall>db\<in>set columns. db \<noteq> [])"
proof -
  let ?counts = "map (map (\<lambda>column. length (tokenize column))) (map (map join_space) columns)"
  have "columns \<noteq> []"
  proof
    assume "columns = []"
    with assms show False by (simp add: get_columns_emb_def py_max_def)
  qed
  then obtain m where m1: "py_max (map length columns) = Inr m"
    by (simp add: py_max_Max)
  from assms obtain ms where "max_each ?counts = Inr ms"
    unfolding get_columns_emb_def Let_def m1 sum.case
    by (cases "max_each ?counts") simp_all
  then have "\<forall>xs\<in>set ?counts. xs \<noteq> []" by (rule max_each_nonempty)
  then have "\<forall>db\<in>set columns. db \<noteq> []" by auto
  with \<open>columns \<noteq> []\<close> show ?thesis by simp
qed

lemma hit_len_nth:
  assumes "length cl = length ce" and "j < max_len"
  shows "hit_len max_len max_col ce cl ! j
           = (if j < min (length ce) max_len then min (cl ! j) max_col else 0)"
  using assms by (auto simp: hit_len_def nth_append)

lemma cache_ok_entry:
  assumes "cache_ok cache" and "map_of cache key = Some (ce, cl)"
  shows "length cl = length ce"
proof -
  from assms(2) have "(key, (ce, cl)) \<in> set cache" by (rule map_of_SomeD)
  with assms(1) have "cache_entry_ok (ce, cl)"
    by (auto simp: cache_ok_def list_all_iff)
  then show ?thesis by (simp add: cache_entry_ok_def)
qed

lemma get_columns_emb_hit_row:
  assumes ok: "cache_ok (column_cache emb)"
    and run: "get_columns_emb tokenize of_len emb columns
                = (Inr (embeddings, lengths, col_name_lengths), emb', calls)"
    and i: "i < length columns"
    and hit: "map_of (column_cache emb) (map join_space (columns ! i)) = Some (ce, cl)"
  shows "embeddings ! i = hit_emb (max_columns columns) (max_tokens tokenize columns)
                            (embedding_dim emb) ce
       \<and> col_name_lengths ! i = hit_len (max_columns columns) (max_tokens tokenize columns) ce cl"
proof -
  let ?L = "max_columns columns" and ?M = "max_tokens tokenize columns"
  let ?Z = "replicate (length columns) (zero_emb_row ?L ?M (embedding_dim emb))"
  let ?ZC = "replicate (length columns) (zero_len_row ?L)"
  let ?dbs = "map (map join_space) columns"
  from get_columns_emb_Inr [OF run]
  have ne: "columns \<noteq> []" "\<forall>db\<in>set columns. db \<noteq> []" by simp_all
  obtain res cache' calls' where
    loop: "columns_loop tokenize of_len emb ?L ?M 0 ?dbs ?Z ?ZC (column_cache emb) []
             = (res, cache', calls')"
    by (cases "columns_loop tokenize of_len emb ?L ?M 0 ?dbs ?Z ?ZC (column_cache emb) []")
  from run have res: "res = Inr (embeddings, col_name_lengths)"
    unfolding get_columns_emb_unfold [OF ne] loop
    by (cases res) (auto split: prod.splits)
  have "embeddings ! (0 + i) = hit_emb ?L ?M (embedding_dim emb) ce
       \<and> col_name_lengths ! (0 + i) = hit_len ?L ?M ce cl"
  proof (rule columns_loop_hit_row)
    show "columns_loop tokenize of_len emb ?L ?M 0 ?dbs ?Z ?ZC (column_cache emb) []
            = (Inr (embeddings, col_name_lengths), cache', calls')"
      using loop res by simp
    show "\<forall>r. 0 \<le> r \<longrightarrow> r < length ?Z \<longrightarrow>
            ?Z ! r = zero_emb_row ?L ?M (embedding_dim emb) \<and> ?ZC ! r = zero_len_row ?L"
      by simp
    show "length ?ZC = length ?Z" by simp
    show "0 + length ?dbs \<le> length ?Z" by simp
    show "i < length ?dbs" using i by simp
    show "map_of (column_cache emb) (?dbs ! i) = Some (ce, cl)"
      using hit i by simp
    show "length cl = length ce" using ok hit by (rule cache_ok_entry)
  qed
  then show ?thesis by simp
qed

lemma get_columns_emb_all_hits:
  assumes ok: "cache_ok (column_cache emb)"
    and ne: "columns \<noteq> []"
    and hits: "\<forall>db\<in>set columns. db \<noteq> [] \<and> map_of (column_cache emb) (map join_space db) \<noteq> None"
  shows "\<exists>out. get_columns_emb tokenize of_len emb columns = (Inr out, emb, [])"
proof -
  let ?L = "max_columns columns" and ?M = "max_tokens tokenize columns"
  let ?Z = "replicate (length columns) (zero_emb_row ?L ?M (embedding_dim emb))"
  let ?ZC = "replicate (length columns) (zero_len_row ?L)"
  let ?dbs = "map (map join_space) columns"
  let ?E = "map (\<lambda>db. hit_emb ?L ?M (embedding_dim emb) (fst (the (map_of (column_cache emb) db))))
              ?dbs"
  let ?C = "map (\<lambda>db. hit_len ?L ?M (fst (the (map_of (column_cache emb) db)))
                         (snd (the (map_of (column_cache emb) db)))) ?dbs"
  from hits have ne2: "\<forall>db\<in>set columns. db \<noteq> []" by simp
  have "columns_loop tokenize of_len emb ?L ?M 0 ?dbs ?Z ?ZC (column_cache emb) []
          = (Inr (?E, ?C), column_cache emb, [])"
  proof (rule columns_loop_all_hits)
    show "\<forall>n<length ?dbs. \<exists>ce cl. map_of (column_cache emb) (?dbs ! n) = Some (ce, cl)
             \<and> length cl = length ce
             \<and> ?E ! (0 + n) = hit_emb ?L ?M (embedding_dim emb) ce
             \<and> ?C ! (0 + n) = hit_len ?L ?M ce cl"
    proof (intro allI impI)
      fix n assume n: "n < length ?dbs"
      then have "columns ! n \<in> set columns" by simp
      with hits have "map_of (column_cache emb) (map join_space (columns ! n)) \<noteq> None"
        by simp
      then obtain ce cl where
        e: "map_of (column_cache emb) (map join_space (columns ! n)) = Some (ce, cl)"
        by auto
      have "length cl = length ce" using ok e by (rule cache_ok_entry)
      with e n show "\<exists>ce cl. map_of (column_cache emb) (?dbs ! n) = Some (ce, cl)
             \<and> length cl = length ce
             \<and> ?E ! (0 + n) = hit_emb ?L ?M (embedding_dim emb) ce
             \<and> ?C ! (0 + n) = hit_len ?L ?M ce cl"
        by (intro exI [of _ ce] exI [of _ cl]) simp
    qed
    show "\<forall>r. 0 \<le> r \<longrightarrow> r < length ?Z \<longrightarrow>
            ?Z ! r = zero_emb_row ?L ?M (embedding_dim emb) \<and> ?ZC ! r = zero_len_row ?L"
      by simp
    show "length ?ZC = length ?Z" by simp
    show "length ?E = length ?Z" by simp
    show "length ?C = length ?Z" by simp
    show "0 + length ?dbs = length ?Z" by simp
    show "\<forall>r<0. ?E ! r = ?Z ! r \<and> ?C ! r = ?ZC ! r" by simp
  qed
  then show ?thesis
    unfolding get_columns_emb_unfold [OF ne ne2] by simp
qed

lemma cached_embedding_reached:
  "get_columns_emb py_split of_nat small_embedding [[[''a'']]]
     = (Inr ([[[[1, 2]]]], [1], [[1]]),
        small_embedding\<lparr>column_cache := [([''a''], ([[[1, 2]]], [1]))]\<rparr>, [''a''])
   \<and> get_columns_emb py_split of_nat
        (small_embedding\<lparr>column_cache := [([''a''], ([[[1, 2]]], [1]))]\<rparr>)
        [[[''b'', ''c''], [''c'']]]
     = (Inr ([[[[3, 4], [5, 8]], [[5, 8], [0, 0]]]], [2], [[2, 1]]),
        cached_embedding, [''b c'', ''c''])"
  by code_simp

text \<open>
  C4: let the cache hold, under the key of item \<open>i\<close> of the batch, a tensor
  \<open>cached_emb\<close> with the lengths \<open>cached_lengths\<close>, every entry of the cache being a
  rectangular tensor with one length for each of its columns (\<open>cache_ok\<close>: what line 178
  stores).  Whenever \<open>get_columns_emb\<close> returns, row \<open>i\<close> of the tensor has the extent of
  the batch, the maximal number of columns by the maximal number of tokens; it holds
  \<open>cached_emb\<close> at the positions below the minimum of the cached extent and the extent
  of the batch, in the dimension of the columns and in that of the tokens, and the zero
  vector elsewhere; the token counts of the row are the cached ones, bounded by the
  maximal number of tokens, and zero above the cached columns.  When every schema of the
  batch has a column and is in the cache, \<open>get_columns_emb\<close> returns, without a call of
  the embedding and with the cache as it was.  In the example the schema of the column
  \<open>a\<close>, cached as one column of one token, is queried in a batch of two columns of two
  tokens.
\<close>

theorem columns_cache_hit_region:
  assumes "cache_ok (column_cache emb)"
    and "i < length columns"
    and "map_of (column_cache emb) (map join_space (columns ! i))
           = Some (cached_emb, cached_lengths)"
  shows "(get_columns_emb tokenize of_len emb columns
            = (Inr (embeddings, lengths, col_name_lengths), emb', calls) \<longrightarrow>
          length (embeddings ! i) = max_columns columns
          \<and> (\<forall>j<max_columns columns.
                length (embeddings ! i ! j) = max_tokens tokenize columns
                \<and> col_name_lengths ! i ! j
                    = (if j < min (length cached_emb) (max_columns columns)
                       then min (cached_lengths ! j) (max_tokens tokenize columns) else 0)
                \<and> (\<forall>k<max_tokens tokenize columns.
                      embeddings ! i ! j ! k
                        = (if j < min (length cached_emb) (max_columns columns)
                              \<and> k < min (size1 cached_emb) (max_tokens tokenize columns)
                           then cached_emb ! j ! k else replicate (embedding_dim emb) 0))))
       \<and> ((\<forall>db\<in>set columns. db \<noteq> [] \<and> map_of (column_cache emb) (map join_space db) \<noteq> None) \<longrightarrow>
            (\<exists>out. get_columns_emb tokenize of_len emb columns = (Inr out, emb, [])))"
proof (intro conjI impI)
  assume run: "get_columns_emb tokenize of_len emb columns
                 = (Inr (embeddings, lengths, col_name_lengths), emb', calls)"
  have len: "length cached_lengths = length cached_emb"
    using assms(1) assms(3) by (rule cache_ok_entry)
  from get_columns_emb_hit_row [OF assms(1) run assms(2) assms(3)]
  have e: "embeddings ! i = hit_emb (max_columns columns) (max_tokens tokenize columns)
                              (embedding_dim emb) cached_emb"
    and c: "col_name_lengths ! i
              = hit_len (max_columns columns) (max_tokens tokenize columns) cached_emb
                  cached_lengths"
    by simp_all
  show "length (embeddings ! i) = max_columns columns"
    unfolding e by (rule hit_emb_shape(1))
  show "\<forall>j<max_columns columns.
          length (embeddings ! i ! j) = max_tokens tokenize columns
          \<and> col_name_lengths ! i ! j
              = (if j < min (length cached_emb) (max_columns columns)
                 then min (cached_lengths ! j) (max_tokens tokenize columns) else 0)
          \<and> (\<forall>k<max_tokens tokenize columns.
                embeddings ! i ! j ! k
                  = (if j < min (length cached_emb) (max_columns columns)
                        \<and> k < min (size1 cached_emb) (max_tokens tokenize columns)
                     then cached_emb ! j ! k else replicate (embedding_dim emb) 0))"
  proof (intro allI impI conjI)
    fix j assume j: "j < max_columns columns"
    show "length (embeddings ! i ! j) = max_tokens tokenize columns"
      unfolding e using j by (rule hit_emb_shape(2))
    show "col_name_lengths ! i ! j
              = (if j < min (length cached_emb) (max_columns columns)
                 then min (cached_lengths ! j) (max_tokens tokenize columns) else 0)"
      unfolding c using len j by (rule hit_len_nth)
    fix k assume k: "k < max_tokens tokenize columns"
    show "embeddings ! i ! j ! k
                  = (if j < min (length cached_emb) (max_columns columns)
                        \<and> k < min (size1 cached_emb) (max_tokens tokenize columns)
                     then cached_emb ! j ! k else replicate (embedding_dim emb) 0)"
      unfolding e using j k by (rule hit_emb_nth)
  qed
next
  assume hits: "\<forall>db\<in>set columns. db \<noteq> [] \<and> map_of (column_cache emb) (map join_space db) \<noteq> None"
  from assms(2) have ne: "columns \<noteq> []" by auto
  from assms(1) ne hits
  show "\<exists>out. get_columns_emb tokenize of_len emb columns = (Inr out, emb, [])"
    by (rule get_columns_emb_all_hits)
qed

theorem columns_cache_hit_region_witness:
  "cache_ok (column_cache cached_embedding)
   \<and> (\<exists>embeddings lengths col_name_lengths.
         get_columns_emb py_split of_nat cached_embedding [[[''a'']], [[''b'', ''c''], [''c'']]]
           = (Inr (embeddings, lengths, col_name_lengths), cached_embedding, [])
         \<and> embeddings ! 0 ! 0 ! 0 = [1, 2] \<and> embeddings ! 0 ! 0 ! 1 = [0, 0]
         \<and> embeddings ! 0 ! 1 ! 0 = [0, 0] \<and> embeddings ! 0 ! 1 ! 1 = [0, 0]
         \<and> col_name_lengths ! 0 ! 0 = 1 \<and> col_name_lengths ! 0 ! 1 = 0)"
proof -
  let ?columns = "[[[''a'']], [[''b'', ''c''], [''c'']]]"
  have ok: "cache_ok (column_cache cached_embedding)" by code_simp
  have i: "0 < length ?columns" by simp
  have hit: "map_of (column_cache cached_embedding) (map join_space (?columns ! 0))
               = Some ([[[1, 2]]], [1])"
    by code_simp
  have hits: "\<forall>db\<in>set ?columns.
                db \<noteq> [] \<and> map_of (column_cache cached_embedding) (map join_space db) \<noteq> None"
    by code_simp
  have L: "max_columns ?columns = 2" by code_simp
  have M: "max_tokens py_split ?columns = 2" by code_simp
  have D: "embedding_dim cached_embedding = 2" by code_simp
  note inst = columns_cache_hit_region [OF ok i hit, where tokenize = py_split
      and of_len = of_nat]
  from inst [THEN conjunct2, THEN mp, OF hits]
  obtain embeddings lengths col_name_lengths where
    run: "get_columns_emb py_split of_nat cached_embedding ?columns
            = (Inr (embeddings, lengths, col_name_lengths), cached_embedding, [])"
    by (elim exE) (metis prod_cases3)
  note row = inst [THEN conjunct1, THEN mp, OF run, unfolded L M D]
  have j0: "(0::nat) < 2" and j1: "(1::nat) < 2" by simp_all
  note r0 = row [THEN conjunct2, rule_format, OF j0]
  note r1 = row [THEN conjunct2, rule_format, OF j1]
  have "embeddings ! 0 ! 0 ! 0 = [1, 2]"
    using r0 [THEN conjunct2, THEN conjunct2, rule_format, OF j0]
    by (simp add: size1_def)
  moreover have "embeddings ! 0 ! 0 ! 1 = [0, 0]"
    using r0 [THEN conjunct2, THEN conjunct2, rule_format, OF j1]
    by (simp add: size1_def numeral_2_eq_2)
  moreover have "embeddings ! 0 ! 1 ! 0 = [0, 0]"
    using r1 [THEN conjunct2, THEN conjunct2, rule_format, OF j0]
    by (simp add: size1_def numeral_2_eq_2)
  moreover have "embeddings ! 0 ! 1 ! 1 = [0, 0]"
    using r1 [THEN conjunct2, THEN conjunct2, rule_format, OF j1]
    by (simp add: size1_def numeral_2_eq_2)
  moreover have "col_name_lengths ! 0 ! 0 = 1"
    using r0 [THEN conjunct2, THEN conjunct1] by simp
  moreover have "col_name_lengths ! 0 ! 1 = 0"
    using r1 [THEN conjunct2, THEN conjunct1] by simp
  ultimately show ?thesis using ok run by (intro conjI exI) 
qed

subsection \<open>Repeating a call with the cache enabled\<close>

lemma forward_str_result:
  assumes "forward tokenize of_len emb (Str s) False = Inr (Seq [rows], [n])"
  shows "n = length (tokenize (str_lower s)) \<and> length rows = n"
  using assms
  by (auto simp: forward_def Let_def as_list_def py_max_single embedding_lookup_def
      indicies_of_def split: if_splits)

lemma assign_rows_shape:
  assumes "assign_rows d old n rows = Inr r"
  shows "length r = length old"
  using assms by (auto simp: assign_rows_def Let_def split: if_splits)

lemma assign_rows_bound:
  assumes "assign_rows d old n rows = Inr r" and "length rows = n"
  shows "n \<le> length old \<or> n = 1"
  using assms by (auto simp: assign_rows_def Let_def split: if_splits)

lemma embed_db_step:
  assumes "embed_db tokenize of_len emb j (column # rest) e_i c_i calls = (Inr out, calls')"
  shows "\<exists>rows n r. forward tokenize of_len emb (Str column) False = Inr (Seq [rows], [n])
           \<and> assign_rows (embedding_dim emb) (e_i ! j) n rows = Inr r
           \<and> embed_db tokenize of_len emb (Suc j) rest (e_i[j := r]) (c_i[j := n])
                (calls @ [column]) = (Inr out, calls')"
  using assms
  by (auto split: sum.splits prod.splits fwd_out.splits list.splits)

lemma embed_db_shape:
  assumes "embed_db tokenize of_len emb j cols e_i c_i calls = (Inr (e', c'), calls')"
  shows "length e' = length e_i \<and> length c' = length c_i
       \<and> (\<forall>r<length e_i. length (e' ! r) = length (e_i ! r))"
  using assms
proof (induction cols arbitrary: j e_i c_i calls)
  case Nil
  then show ?case by simp
next
  case (Cons column rest)
  from embed_db_step [OF Cons.prems]
  obtain rows n r where
    a: "assign_rows (embedding_dim emb) (e_i ! j) n rows = Inr r"
    and run: "embed_db tokenize of_len emb (Suc j) rest (e_i[j := r]) (c_i[j := n])
                (calls @ [column]) = (Inr (e', c'), calls')"
    by (elim exE conjE)
  have "length (e_i[j := r] ! q) = length (e_i ! q)" if "q < length e_i" for q
    using that assign_rows_shape [OF a] by (cases "q = j") simp_all
  with Cons.IH [OF run] show ?case by simp
qed

lemma embed_db_bound:
  assumes "embed_db tokenize of_len emb j cols e_i c_i calls = (Inr (e', c'), calls')"
    and "\<forall>r<length e_i. length (e_i ! r) = max_col"
    and "length c_i = length e_i"
    and "\<forall>r<length e_i. c_i ! r \<le> max_col"
    and "j + length cols \<le> length e_i"
    and "0 < max_col \<or> (\<forall>column\<in>set cols. tokenize (str_lower column) = [])"
  shows "\<forall>r<length e_i. c' ! r \<le> max_col"
  using assms
proof (induction cols arbitrary: j e_i c_i calls)
  case Nil
  then show ?case by simp
next
  case (Cons column rest)
  from embed_db_step [OF Cons.prems(1)]
  obtain rows n r where
    f: "forward tokenize of_len emb (Str column) False = Inr (Seq [rows], [n])"
    and a: "assign_rows (embedding_dim emb) (e_i ! j) n rows = Inr r"
    and run: "embed_db tokenize of_len emb (Suc j) rest (e_i[j := r]) (c_i[j := n])
                (calls @ [column]) = (Inr (e', c'), calls')"
    by (elim exE conjE)
  from Cons.prems(5) have j: "j < length e_i" by simp
  from forward_str_result [OF f]
  have n: "n = length (tokenize (str_lower column))" and rows: "length rows = n"
    by simp_all
  from assign_rows_bound [OF a rows] Cons.prems(2) j
  have "n \<le> max_col \<or> n = 1" by simp
  moreover have "n = 1 \<Longrightarrow> 0 < max_col"
    using Cons.prems(6) n by auto
  ultimately have nb: "n \<le> max_col" by auto
  have r: "length r = max_col"
    using assign_rows_shape [OF a] Cons.prems(2) j by simp
  have "\<forall>q<length (e_i[j := r]). c' ! q \<le> max_col"
  proof (rule Cons.IH [OF run])
    show "\<forall>q<length (e_i[j := r]). length (e_i[j := r] ! q) = max_col"
    proof (intro allI impI)
      fix q assume "q < length (e_i[j := r])"
      then show "length (e_i[j := r] ! q) = max_col"
        using Cons.prems(2) r by (cases "q = j") simp_all
    qed
    show "length (c_i[j := n]) = length (e_i[j := r])"
      using Cons.prems(3) by simp
    show "\<forall>q<length (e_i[j := r]). c_i[j := n] ! q \<le> max_col"
    proof (intro allI impI)
      fix q assume "q < length (e_i[j := r])"
      then show "c_i[j := n] ! q \<le> max_col"
        using Cons.prems(3) Cons.prems(4) nb by (cases "q = j") simp_all
    qed
    show "Suc j + length rest \<le> length (e_i[j := r])"
      using Cons.prems(5) by simp
    show "0 < max_col \<or> (\<forall>column\<in>set rest. tokenize (str_lower column) = [])"
      using Cons.prems(6) by auto
  qed
  then show ?case by simp
qed

lemma hit_emb_same:
  assumes "length e = max_len" and "\<forall>r<max_len. length (e ! r) = max_col" and "0 < max_len"
  shows "hit_emb max_len max_col d e = e"
proof -
  from assms obtain r rs where e: "e = r # rs" by (cases e) auto
  with assms(2,3) have "length r = max_col" by auto
  then have s: "size1 e = max_col" by (simp add: size1_def e)
  show ?thesis
    using assms(1,2)
    by (auto simp: hit_emb_def assign_block_def zero_emb_row_def s intro!: nth_equalityI)
qed

lemma hit_len_same:
  assumes "length c = max_len" and "length e = max_len" and "\<forall>r<max_len. c ! r \<le> max_col"
  shows "hit_len max_len max_col e c = c"
  using assms by (auto simp: hit_len_def min_def intro!: nth_equalityI)

lemma cache_ok_update:
  assumes "cache_ok cache" and "cache_entry_ok e"
  shows "cache_ok (AList.update key e cache)"
  using assms by (induction cache) (auto simp: cache_ok_def)

lemma zero_rows_shape:
  "length (zero_emb_row max_len max_col d) = max_len"
  "\<forall>r<max_len. length (zero_emb_row max_len max_col d ! r) = max_col"
  "length (zero_len_row max_len) = max_len"
  "\<forall>r<max_len. zero_len_row max_len ! r \<le> max_col"
  by (simp_all add: zero_emb_row_def zero_len_row_def)

lemma embed_db_entry:
  assumes run: "embed_db tokenize of_len emb 0 db (zero_emb_row max_len max_col d)
                  (zero_len_row max_len) calls = (Inr (e_i, c_i), calls')"
    and L: "0 < max_len"
  shows "cache_entry_ok (e_i, c_i) \<and> length e_i = max_len
       \<and> (\<forall>r<max_len. length (e_i ! r) = max_col) \<and> length c_i = max_len"
proof -
  from embed_db_shape [OF run]
  have e: "length e_i = max_len" and c: "length c_i = max_len"
    and rows: "\<forall>r<max_len. length (e_i ! r) = max_col"
    by (simp_all add: zero_rows_shape)
  from e L obtain r rs where ei: "e_i = r # rs" by (cases e_i) auto
  with rows L have "length r = max_col" by auto
  then have s: "size1 e_i = max_col" by (simp add: size1_def ei)
  have "list_all (\<lambda>row. length row = size1 e_i) e_i"
    unfolding list_all_length s using rows e by simp
  with e c L show ?thesis using rows by (auto simp: cache_entry_ok_def)
qed

lemma columns_loop_cache_ok:
  assumes "columns_loop tokenize of_len emb max_len max_col i dbs embeddings col_name_lengths
             cache calls = (res, cache', calls')"
    and "cache_ok cache"
    and "0 < max_len"
    and "\<forall>r. i \<le> r \<longrightarrow> r < length embeddings \<longrightarrow>
           embeddings ! r = zero_emb_row max_len max_col (embedding_dim emb)
           \<and> col_name_lengths ! r = zero_len_row max_len"
    and "i + length dbs \<le> length embeddings"
  shows "cache_ok cache'"
  using assms
proof (induction dbs arbitrary: i embeddings col_name_lengths cache calls)
  case Nil
  then show ?case by simp
next
  case (Cons db rest)
  from Cons.prems(5) have i: "i < length embeddings" by simp
  with Cons.prems(4) have
    zi: "embeddings ! i = zero_emb_row max_len max_col (embedding_dim emb)"
      "col_name_lengths ! i = zero_len_row max_len"
    by simp_all
  show ?case
  proof (cases "map_of cache db")
    case (Some entry)
    obtain ce cl where entry: "entry = (ce, cl)" by (cases entry)
    show ?thesis
    proof (cases "assign_lengths (col_name_lengths ! i) (min (length ce) max_len)
                    (map (\<lambda>n. min n max_col) cl)")
      case (Inl err)
      with Cons.prems Some entry show ?thesis by (simp add: Let_def)
    next
      case (Inr c_i)
      let ?E = "embeddings[i := assign_block (embeddings ! i) (min (length ce) max_len)
                 (min (size1 ce) max_col) ce]"
      from Inr Cons.prems(1) Some entry
      have run: "columns_loop tokenize of_len emb max_len max_col (Suc i) rest ?E
              (col_name_lengths[i := c_i]) cache calls = (res, cache', calls')"
        by (simp add: Let_def)
      show ?thesis
      proof (rule Cons.IH [OF run Cons.prems(2) Cons.prems(3)])
        show "\<forall>r. Suc i \<le> r \<longrightarrow> r < length ?E \<longrightarrow>
                ?E ! r = zero_emb_row max_len max_col (embedding_dim emb)
                \<and> col_name_lengths[i := c_i] ! r = zero_len_row max_len"
          using Cons.prems(4) by simp
        show "Suc i + length rest \<le> length ?E" using Cons.prems(5) by simp
      qed
    qed
  next
    case None
    obtain r calls1 where
      db: "embed_db tokenize of_len emb 0 db (embeddings ! i) (col_name_lengths ! i) calls
             = (r, calls1)"
      by (cases "embed_db tokenize of_len emb 0 db (embeddings ! i) (col_name_lengths ! i) calls")
    show ?thesis
    proof (cases r)
      case (Inl err)
      with Cons.prems None db show ?thesis by simp
    next
      case (Inr rows)
      obtain e_i c_i where rows: "rows = (e_i, c_i)" by (cases rows)
      let ?cache = "if use_column_cache emb then AList.update db (e_i, c_i) cache else cache"
      from Cons.prems(1) None db Inr rows
      have run: "columns_loop tokenize of_len emb max_len max_col (Suc i) rest
              (embeddings[i := e_i]) (col_name_lengths[i := c_i]) ?cache calls1
            = (res, cache', calls')"
        by simp
      from db Inr rows zi
      have "embed_db tokenize of_len emb 0 db
              (zero_emb_row max_len max_col (embedding_dim emb)) (zero_len_row max_len) calls
              = (Inr (e_i, c_i), calls1)"
        by simp
      from embed_db_entry [OF this Cons.prems(3)]
      have "cache_entry_ok (e_i, c_i)" by simp
      with Cons.prems(2) have ok: "cache_ok ?cache" by (simp add: cache_ok_update)
      show ?thesis
      proof (rule Cons.IH [OF run ok Cons.prems(3)])
        show "\<forall>r. Suc i \<le> r \<longrightarrow> r < length (embeddings[i := e_i]) \<longrightarrow>
                embeddings[i := e_i] ! r = zero_emb_row max_len max_col (embedding_dim emb)
                \<and> col_name_lengths[i := c_i] ! r = zero_len_row max_len"
          using Cons.prems(4) by simp
        show "Suc i + length rest \<le> length (embeddings[i := e_i])"
          using Cons.prems(5) by simp
      qed
    qed
  qed
qed

lemma columns_loop_post:
  assumes "columns_loop tokenize of_len emb max_len max_col i dbs embeddings col_name_lengths
             cache calls = (Inr (embeddings', col_name_lengths'), cache', calls')"
    and "use_column_cache emb"
    and "cache_ok cache"
    and "0 < max_len"
    and "\<forall>r. i \<le> r \<longrightarrow> r < length embeddings \<longrightarrow>
           embeddings ! r = zero_emb_row max_len max_col (embedding_dim emb)
           \<and> col_name_lengths ! r = zero_len_row max_len"
    and "length col_name_lengths = length embeddings"
    and "i + length dbs \<le> length embeddings"
    and "\<forall>db\<in>set dbs. length db \<le> max_len"
    and "0 < max_col \<or> (\<forall>db\<in>set dbs. \<forall>column\<in>set db. tokenize (str_lower column) = [])"
  shows "\<forall>n<length dbs. \<exists>ce cl. map_of cache' (dbs ! n) = Some (ce, cl)
           \<and> length cl = length ce
           \<and> embeddings' ! (i + n) = hit_emb max_len max_col (embedding_dim emb) ce
           \<and> col_name_lengths' ! (i + n) = hit_len max_len max_col ce cl"
  using assms
proof (induction dbs arbitrary: i embeddings col_name_lengths cache calls)
  case Nil
  then show ?case by simp
next
  case (Cons db rest)
  let ?D = "embedding_dim emb"
  from Cons.prems(7) have i: "i < length embeddings" by simp
  with Cons.prems(5) have
    zi: "embeddings ! i = zero_emb_row max_len max_col ?D"
      "col_name_lengths ! i = zero_len_row max_len"
    by simp_all
  have step: "\<forall>n<length (db # rest). \<exists>ce cl. map_of cache' ((db # rest) ! n) = Some (ce, cl)
           \<and> length cl = length ce
           \<and> embeddings' ! (i + n) = hit_emb max_len max_col ?D ce
           \<and> col_name_lengths' ! (i + n) = hit_len max_len max_col ce cl"
    if run: "columns_loop tokenize of_len emb max_len max_col (Suc i) rest
               (embeddings[i := e_i]) (col_name_lengths[i := c_i]) cache1 calls1
             = (Inr (embeddings', col_name_lengths'), cache', calls')"
      and ok: "cache_ok cache1"
      and hit: "map_of cache1 db = Some (ce, cl)"
      and len: "length cl = length ce"
      and e: "e_i = hit_emb max_len max_col ?D ce"
      and c: "c_i = hit_len max_len max_col ce cl"
    for e_i c_i cache1 calls1 ce cl
  proof -
    have ih: "\<forall>n<length rest. \<exists>ce cl. map_of cache' (rest ! n) = Some (ce, cl)
           \<and> length cl = length ce
           \<and> embeddings' ! (Suc i + n) = hit_emb max_len max_col ?D ce
           \<and> col_name_lengths' ! (Suc i + n) = hit_len max_len max_col ce cl"
    proof (rule Cons.IH [OF run Cons.prems(2) ok Cons.prems(4)])
      show "\<forall>r. Suc i \<le> r \<longrightarrow> r < length (embeddings[i := e_i]) \<longrightarrow>
              embeddings[i := e_i] ! r = zero_emb_row max_len max_col ?D
              \<and> col_name_lengths[i := c_i] ! r = zero_len_row max_len"
        using Cons.prems(5) by simp
      show "length (col_name_lengths[i := c_i]) = length (embeddings[i := e_i])"
        using Cons.prems(6) by simp
      show "Suc i + length rest \<le> length (embeddings[i := e_i])"
        using Cons.prems(7) by simp
      show "\<forall>db\<in>set rest. length db \<le> max_len" using Cons.prems(8) by simp
      show "0 < max_col \<or> (\<forall>db\<in>set rest. \<forall>column\<in>set db. tokenize (str_lower column) = [])"
        using Cons.prems(9) by auto
    qed
    from columns_loop_cache_mono [OF run hit]
    have hit': "map_of cache' db = Some (ce, cl)" .
    from columns_loop_frame [OF run] i Cons.prems(6)
    have "embeddings' ! i = e_i" and "col_name_lengths' ! i = c_i"
      by simp_all
    with e c have row: "embeddings' ! i = hit_emb max_len max_col ?D ce"
      "col_name_lengths' ! i = hit_len max_len max_col ce cl"
      by simp_all
    show ?thesis
    proof (intro allI impI)
      fix n assume n: "n < length (db # rest)"
      show "\<exists>ce cl. map_of cache' ((db # rest) ! n) = Some (ce, cl)
           \<and> length cl = length ce
           \<and> embeddings' ! (i + n) = hit_emb max_len max_col ?D ce
           \<and> col_name_lengths' ! (i + n) = hit_len max_len max_col ce cl"
      proof (cases n)
        case 0
        with hit' len row show ?thesis by simp
      next
        case (Suc m)
        with n have "m < length rest" by simp
        with ih Suc show ?thesis by simp
      qed
    qed
  qed
  show ?case
  proof (cases "map_of cache db")
    case (Some entry)
    obtain ce cl where entry: "entry = (ce, cl)" by (cases entry)
    from Some entry have hit: "map_of cache db = Some (ce, cl)" by simp
    have len: "length cl = length ce" using Cons.prems(3) hit by (rule cache_ok_entry)
    from Cons.prems(1)
    have run: "columns_loop tokenize of_len emb max_len max_col (Suc i) rest
             (embeddings[i := hit_emb max_len max_col ?D ce])
             (col_name_lengths[i := hit_len max_len max_col ce cl]) cache calls
           = (Inr (embeddings', col_name_lengths'), cache', calls')"
      unfolding columns_loop_hit [OF hit len zi] .
    from run Cons.prems(3) hit len show ?thesis by (rule step) simp_all
  next
    case None
    obtain r calls1 where
      db: "embed_db tokenize of_len emb 0 db (embeddings ! i) (col_name_lengths ! i) calls
             = (r, calls1)"
      by (cases "embed_db tokenize of_len emb 0 db (embeddings ! i) (col_name_lengths ! i) calls")
    show ?thesis
    proof (cases r)
      case (Inl err)
      with Cons.prems(1) None db show ?thesis by simp
    next
      case (Inr rows)
      obtain e_i c_i where rows: "rows = (e_i, c_i)" by (cases rows)
      let ?cache = "AList.update db (e_i, c_i) cache"
      from Cons.prems(1) Cons.prems(2) None db Inr rows
      have run: "columns_loop tokenize of_len emb max_len max_col (Suc i) rest
              (embeddings[i := e_i]) (col_name_lengths[i := c_i]) ?cache calls1
            = (Inr (embeddings', col_name_lengths'), cache', calls')"
        by simp
      from db Inr rows zi
      have edb: "embed_db tokenize of_len emb 0 db (zero_emb_row max_len max_col ?D)
              (zero_len_row max_len) calls = (Inr (e_i, c_i), calls1)"
        by simp
      from embed_db_entry [OF edb Cons.prems(4)]
      have entry: "cache_entry_ok (e_i, c_i)" and le: "length e_i = max_len"
        and rw: "\<forall>r<max_len. length (e_i ! r) = max_col" and lc: "length c_i = max_len"
        by simp_all
      from Cons.prems(3) entry have ok: "cache_ok ?cache" by (rule cache_ok_update)
      have p5: "0 + length db \<le> max_len" using Cons.prems(8) by simp
      have p6: "0 < max_col \<or> (\<forall>column\<in>set db. tokenize (str_lower column) = [])"
        using Cons.prems(9) by auto
      from embed_db_bound [OF edb, of max_col] p5 p6
      have cb: "\<forall>r<max_len. c_i ! r \<le> max_col" by (simp add: zero_rows_shape)
      have e: "e_i = hit_emb max_len max_col ?D e_i"
        using hit_emb_same [OF le rw Cons.prems(4)] by simp
      have c: "c_i = hit_len max_len max_col e_i c_i"
        using hit_len_same [OF lc le cb] by simp
      have hit: "map_of ?cache db = Some (e_i, c_i)" by (simp add: update_conv')
      from lc le have len: "length c_i = length e_i" by simp
      from run ok hit len e c show ?thesis by (rule step)
    qed
  qed
qed

lemma split_acc_empty:
  "split_acc cur s = [] \<Longrightarrow> cur = [] \<and> (\<forall>c\<in>set s. is_space c)"
  by (induction s arbitrary: cur) (auto split: if_splits)

lemma lower_char_space: "is_space c \<Longrightarrow> lower_char c = c"
  by (auto simp: is_space_def lower_char_def Let_def)

lemma py_split_lower_empty: "py_split s = [] \<Longrightarrow> py_split (str_lower s) = []"
proof -
  assume "py_split s = []"
  then have sp: "\<forall>c\<in>set s. is_space c"
    using split_acc_empty [of "[]" s] by (simp add: py_split_def)
  then have "str_lower s = s"
    by (simp add: str_lower_def lower_char_space map_idI)
  with sp show ?thesis by (simp add: py_split_def split_acc_spaces)
qed

lemma max_columns_bounds:
  assumes "columns \<noteq> []" and "\<forall>db\<in>set columns. db \<noteq> []"
  shows "0 < max_columns columns \<and> (\<forall>db\<in>set columns. length db \<le> max_columns columns)"
proof -
  have le: "length db \<le> max_columns columns" if "db \<in> set columns" for db
    unfolding max_columns_def using that by (intro Max_ge) auto
  from assms obtain db where db: "db \<in> set columns" "db \<noteq> []"
    by (cases columns) auto
  with le [of db] have "0 < max_columns columns" by (cases db) auto
  with le show ?thesis by simp
qed

lemma max_tokens_zero:
  assumes "max_tokens tokenize columns = 0" and "db \<in> set columns" and "column \<in> set db"
  shows "tokenize (join_space column) = []"
proof -
  have "length (tokenize (join_space column))
          \<in> set (concat (map (map (\<lambda>column. length (tokenize (join_space column)))) columns))"
    using assms(2,3) by auto
  then have "length (tokenize (join_space column)) \<le> max_tokens tokenize columns"
    unfolding max_tokens_def by (intro Max_ge) simp_all
  with assms(1) show ?thesis by simp
qed

lemma get_columns_emb_cache_ok:
  assumes ok: "cache_ok (column_cache emb)"
    and run: "get_columns_emb tokenize of_len emb columns = (res, emb', calls)"
  shows "cache_ok (column_cache emb')"
proof (cases "columns \<noteq> [] \<and> (\<forall>db\<in>set columns. db \<noteq> [])")
  case True
  then have ne: "columns \<noteq> []" "\<forall>db\<in>set columns. db \<noteq> []" by simp_all
  let ?L = "max_columns columns" and ?M = "max_tokens tokenize columns"
  let ?Z = "replicate (length columns) (zero_emb_row ?L ?M (embedding_dim emb))"
  let ?ZC = "replicate (length columns) (zero_len_row ?L)"
  let ?dbs = "map (map join_space) columns"
  from max_columns_bounds [OF ne] have L: "0 < ?L" by simp
  obtain r cache' calls' where
    loop: "columns_loop tokenize of_len emb ?L ?M 0 ?dbs ?Z ?ZC (column_cache emb) []
             = (r, cache', calls')"
    by (cases "columns_loop tokenize of_len emb ?L ?M 0 ?dbs ?Z ?ZC (column_cache emb) []")
  from run have emb': "emb' = emb\<lparr>column_cache := cache'\<rparr>"
    unfolding get_columns_emb_unfold [OF ne] loop
    by (cases r) (auto split: prod.splits)
  have "cache_ok cache'"
  proof (rule columns_loop_cache_ok [OF loop ok L])
    show "\<forall>r. 0 \<le> r \<longrightarrow> r < length ?Z \<longrightarrow>
            ?Z ! r = zero_emb_row ?L ?M (embedding_dim emb) \<and> ?ZC ! r = zero_len_row ?L"
      by simp
    show "0 + length ?dbs \<le> length ?Z" by simp
  qed
  then show ?thesis by (simp add: emb')
next
  case False
  let ?counts = "map (map (\<lambda>column. length (tokenize column))) (map (map join_space) columns)"
  have "emb' = emb"
  proof (cases "columns = []")
    case True
    with run show ?thesis by (simp add: get_columns_emb_def py_max_def)
  next
    case ne: False
    then obtain m where m1: "py_max (map length columns) = Inr m"
      by (simp add: py_max_Max)
    from False ne have "\<not> (\<forall>xs\<in>set ?counts. xs \<noteq> [])" by auto
    then have "\<forall>ms. max_each ?counts \<noteq> Inr ms"
      using max_each_nonempty [of ?counts] by blast
    then obtain e where "max_each ?counts = Inl e"
      by (cases "max_each ?counts") auto
    with run show ?thesis
      unfolding get_columns_emb_def Let_def m1 sum.case by simp
  qed
  with ok show ?thesis by simp
qed

text \<open>
  C5: with the cache enabled, a cache whose entries are rectangular tensors with one
  length for each column (\<open>cache_ok\<close>, which the call preserves), and a tokenizer that
  finds no token in the lowercased form of a string in which it finds none, a call of
  \<open>get_columns_emb\<close> that returns is repeated by a second call on the object it left:
  the second call returns the same tensor, column counts and token counts, hands no
  sentence to \<open>forward\<close> and leaves the object as it was.
\<close>

theorem columns_cache_repeat:
  assumes uc: "use_column_cache emb"
    and ok: "cache_ok (column_cache emb)"
    and tok: "\<forall>s. tokenize s = [] \<longrightarrow> tokenize (str_lower s) = []"
    and run: "get_columns_emb tokenize of_len emb columns = (Inr out, emb', calls)"
  shows "get_columns_emb tokenize of_len emb' columns = (Inr out, emb', [])
       \<and> cache_ok (column_cache emb')"
proof -
  let ?L = "max_columns columns" and ?M = "max_tokens tokenize columns"
  let ?D = "embedding_dim emb"
  let ?Z = "replicate (length columns) (zero_emb_row ?L ?M ?D)"
  let ?ZC = "replicate (length columns) (zero_len_row ?L)"
  let ?dbs = "map (map join_space) columns"
  from get_columns_emb_Inr [OF run]
  have ne: "columns \<noteq> []" "\<forall>db\<in>set columns. db \<noteq> []" by simp_all
  from max_columns_bounds [OF ne]
  have L: "0 < ?L" and cols: "\<forall>db\<in>set ?dbs. length db \<le> ?L" by simp_all
  obtain res cache' calls' where
    loop: "columns_loop tokenize of_len emb ?L ?M 0 ?dbs ?Z ?ZC (column_cache emb) []
             = (res, cache', calls')"
    by (cases "columns_loop tokenize of_len emb ?L ?M 0 ?dbs ?Z ?ZC (column_cache emb) []")
  from run obtain embeddings col_name_lengths where
    res: "res = Inr (embeddings, col_name_lengths)"
    and out: "out = (embeddings, map length columns, col_name_lengths)"
    and emb': "emb' = emb\<lparr>column_cache := cache'\<rparr>"
    unfolding get_columns_emb_unfold [OF ne] loop
    by (cases res) (auto split: prod.splits)
  have zero: "\<forall>r. 0 \<le> r \<longrightarrow> r < length ?Z \<longrightarrow>
                ?Z ! r = zero_emb_row ?L ?M ?D \<and> ?ZC ! r = zero_len_row ?L"
    by simp
  have lens: "length ?ZC = length ?Z" by simp
  have bound: "0 + length ?dbs \<le> length ?Z" by simp
  have tk: "0 < ?M \<or> (\<forall>db\<in>set ?dbs. \<forall>column\<in>set db. tokenize (str_lower column) = [])"
  proof (cases "?M = 0")
    case True
    have "tokenize (str_lower column) = []" if "db \<in> set ?dbs" and "column \<in> set db"
      for db column
    proof -
      from that obtain db0 c0 where "db0 \<in> set columns" and "c0 \<in> set db0"
        and "column = join_space c0"
        by auto
      with max_tokens_zero [OF True] have "tokenize column = []" by simp
      with tok show ?thesis by simp
    qed
    then show ?thesis by simp
  next
    case False
    then show ?thesis by simp
  qed
  from loop res
  have loop': "columns_loop tokenize of_len emb ?L ?M 0 ?dbs ?Z ?ZC (column_cache emb) []
                 = (Inr (embeddings, col_name_lengths), cache', calls')"
    by simp
  from columns_loop_post [OF loop' uc ok L zero lens bound cols tk]
  have post: "\<forall>n<length ?dbs. \<exists>ce cl. map_of cache' (?dbs ! n) = Some (ce, cl)
           \<and> length cl = length ce
           \<and> embeddings ! (0 + n) = hit_emb ?L ?M ?D ce
           \<and> col_name_lengths ! (0 + n) = hit_len ?L ?M ce cl" .
  from columns_loop_frame [OF loop']
  have shapes: "length embeddings = length ?Z" "length col_name_lengths = length ?Z"
    by simp_all
  have ok': "cache_ok cache'"
    using loop ok L zero bound by (rule columns_loop_cache_ok)
  have D: "embedding_dim emb' = ?D" and cache: "column_cache emb' = cache'"
    by (simp_all add: emb')
  have "columns_loop tokenize of_len emb' ?L ?M 0 ?dbs ?Z ?ZC cache' []
          = (Inr (embeddings, col_name_lengths), cache', [])"
  proof (rule columns_loop_all_hits)
    show "\<forall>n<length ?dbs. \<exists>ce cl. map_of cache' (?dbs ! n) = Some (ce, cl)
           \<and> length cl = length ce
           \<and> embeddings ! (0 + n) = hit_emb ?L ?M (embedding_dim emb') ce
           \<and> col_name_lengths ! (0 + n) = hit_len ?L ?M ce cl"
      using post unfolding D .
    show "\<forall>r. 0 \<le> r \<longrightarrow> r < length ?Z \<longrightarrow>
            ?Z ! r = zero_emb_row ?L ?M (embedding_dim emb') \<and> ?ZC ! r = zero_len_row ?L"
      unfolding D by simp
    show "length ?ZC = length ?Z" by simp
    show "length embeddings = length ?Z" by (rule shapes)
    show "length col_name_lengths = length ?Z" by (rule shapes)
    show "0 + length ?dbs = length ?Z" by simp
    show "\<forall>r<0. embeddings ! r = ?Z ! r \<and> col_name_lengths ! r = ?ZC ! r" by simp
  qed
  then have "get_columns_emb tokenize of_len emb' columns = (Inr out, emb', [])"
    unfolding get_columns_emb_unfold [OF ne] D cache
    by (simp add: out emb')
  with ok' cache show ?thesis by simp
qed


theorem columns_cache_repeat_witness:
  "get_columns_emb py_split of_nat small_embedding [[[''a'']], [[''b'', ''c''], [''c'']]]
     = (Inr ([[[[1, 2], [0, 0]], [[0, 0], [0, 0]]], [[[3, 4], [5, 8]], [[5, 8], [0, 0]]]],
             [1, 2], [[1, 0], [2, 1]]),
        small_embedding\<lparr>column_cache :=
          [([''a''], ([[[1, 2], [0, 0]], [[0, 0], [0, 0]]], [1, 0])),
           ([''b c'', ''c''], ([[[3, 4], [5, 8]], [[5, 8], [0, 0]]], [2, 1]))]\<rparr>,
        [''a'', ''b c'', ''c''])
   \<and> get_columns_emb py_split of_nat
        (small_embedding\<lparr>column_cache :=
          [([''a''], ([[[1, 2], [0, 0]], [[0, 0], [0, 0]]], [1, 0])),
           ([''b c'', ''c''], ([[[3, 4], [5, 8]], [[5, 8], [0, 0]]], [2, 1]))]\<rparr>)
        [[[''a'']], [[''b'', ''c''], [''c'']]]
     = (Inr ([[[[1, 2], [0, 0]], [[0, 0], [0, 0]]], [[[3, 4], [5, 8]], [[5, 8], [0, 0]]]],
             [1, 2], [[1, 0], [2, 1]]),
        small_embedding\<lparr>column_cache :=
          [([''a''], ([[[1, 2], [0, 0]], [[0, 0], [0, 0]]], [1, 0])),
           ([''b c'', ''c''], ([[[3, 4], [5, 8]], [[5, 8], [0, 0]]], [2, 1]))]\<rparr>,
        [])"
proof -
  have uc: "use_column_cache small_embedding" by code_simp
  have ok: "cache_ok (column_cache small_embedding)" by code_simp
  have tok: "\<forall>s. py_split s = [] \<longrightarrow> py_split (str_lower s) = []"
    by (simp add: py_split_lower_empty)
  have run: "get_columns_emb py_split of_nat small_embedding
               [[[''a'']], [[''b'', ''c''], [''c'']]]
     = (Inr ([[[[1, 2], [0, 0]], [[0, 0], [0, 0]]], [[[3, 4], [5, 8]], [[5, 8], [0, 0]]]],
             [1, 2], [[1, 0], [2, 1]]),
        small_embedding\<lparr>column_cache :=
          [([''a''], ([[[1, 2], [0, 0]], [[0, 0], [0, 0]]], [1, 0])),
           ([''b c'', ''c''], ([[[3, 4], [5, 8]], [[5, 8], [0, 0]]], [2, 1]))]\<rparr>,
        [''a'', ''b c'', ''c''])"
    by code_simp
  from columns_cache_repeat [OF uc ok tok run] run show ?thesis by (simp only: simp_thms)
qed

end
